theory Spec2Isabelle
  imports Main "HOL-Library.AList"
begin

section \<open>Values handled by the registry\<close>

text \<open>
  The registry of \<^verbatim>\<open>js/core/src/registry.ts\<close> stores opaque collaborators: actions,
  trace stores, flow state stores, schemas and plugins. Each is modelled by a datatype
  that keeps what the registry reads (an action's name) and an identity number, so that
  two different objects with the same name stay different.
\<close>

datatype ActionType =
  Custom | Retriever | Indexer | Embedder | Evaluator | Flow | Model | Prompt | Tool

fun type_str :: "ActionType \<Rightarrow> string" where
  "type_str Custom = ''custom''"
| "type_str Retriever = ''retriever''"
| "type_str Indexer = ''indexer''"
| "type_str Embedder = ''embedder''"
| "type_str Evaluator = ''evaluator''"
| "type_str Flow = ''flow''"
| "type_str Model = ''model''"
| "type_str Prompt = ''prompt''"
| "type_str Tool = ''tool''"

datatype Action = Action (action_name: string) (action_ident: nat)

datatype TraceStore = TraceStore nat

datatype FlowStateStore = FlowStateStore nat

datatype InitializedPlugin = InitializedPlugin nat

record SchemaData =
  schema :: "nat option"
  jsonSchema :: "nat option"

text \<open>
  \<open>Err\<close> is an error raised by a collaborator, \<open>TypeError\<close> the error the runtime raises
  when the code calls something that is not a function. \<open>CyclicChain\<close> is raised by no
  source line: it marks the branch of a chain walk whose parent address is not below the
  node's own, which no heap built by the constructor contains (see \<open>parents_below\<close>).
\<close>

datatype err = Err nat | TypeError | CyclicChain

subsection \<open>Promises and asynchronous functions\<close>

text \<open>
  A promise is an object with an identity (\<open>serial\<close>, the number of external calls made
  before the call that created it) and the way it settles. An \<open>AsyncProvider<T>\<close>
  (\<^verbatim>\<open>() => Promise<T>\<close>) is an asynchronous factory: a call returns a promise and never
  throws synchronously. Every promise settles; the result a caller sees after \<^verbatim>\<open>await\<close>
  is an \<open>outcome\<close>.
  Stores, plugins and actions are objects, hence truthy in every \<^verbatim>\<open>||\<close> and \<^verbatim>\<open>!\<close> test
  of the source; \<^verbatim>\<open>undefined\<close> is \<open>None\<close>.
  \<open>ReturnedMember k\<close> is the outcome of a call that returns, not a value of its declared
  type, but what a table inherits under the name \<open>k\<close> (see \<open>property\<close> below).
\<close>

datatype 'a settle = Fulfils 'a | Rejects err

datatype 'a Promise = Promise (serial: nat) (settles: "'a settle")

datatype 'a AsyncProvider = AsyncProvider (tag: nat) (yields: "'a settle")

datatype 'a outcome = Returned 'a | Thrown err | ReturnedMember string

fun await :: "'a Promise \<Rightarrow> 'a outcome" where
  "await (Promise n (Fulfils v)) = Returned v"
| "await (Promise n (Rejects e)) = Thrown e"

subsection \<open>Plugin providers\<close>

text \<open>
  Modelled from the spec: \<^verbatim>\<open>PluginProvider\<close> (declared in \<^verbatim>\<open>plugin.ts\<close>, which is not among
  the sources) "exposes a name and a zero-argument asynchronous initializer()" that is
  "expected to perform side-effecting registrations against the currently-scoped
  registry". An initializer is therefore an identity (\<open>init_tag\<close>), the registrations it
  performs through the module-level functions before its promise settles (\<open>init_body\<close>),
  and the way that promise settles.
\<close>

datatype reg =
    RegisterAction ActionType Action
  | RegisterTraceStore string "TraceStore AsyncProvider"
  | RegisterFlowStateStore string "FlowStateStore AsyncProvider"
  | RegisterPluginProvider string PluginProvider
  | RegisterSchema string SchemaData
and PluginProvider =
    PluginProvider (provider_name: string) (init_tag: nat) (init_body: "reg list")
      (init_settles: "InitializedPlugin settle")

section \<open>The state: registry objects, closure variables, the global slot\<close>

text \<open>
  \<open>pb_cached\<close> is the address of the variable \<^verbatim>\<open>cached\<close> that the closure built by
  \<^verbatim>\<open>registerPluginProvider\<close> captures; \<open>pb_provider\<close> is the captured \<^verbatim>\<open>provider\<close>.
\<close>

record PluginBinding =
  pb_name :: string
  pb_cached :: nat
  pb_provider :: PluginProvider

subsection \<open>Tables are plain objects\<close>

text \<open>
  Every table of the registry is created as \<^verbatim>\<open>{}\<close> and read with \<^verbatim>\<open>table[key]\<close>. Such a
  read finds the table's own properties and, for a key that is not one of them, what the
  table inherits from its prototype \<^verbatim>\<open>Object.prototype\<close>: the members listed below. All of
  them are truthy (they are functions, and \<^verbatim>\<open>__proto__\<close> reads as the prototype object
  itself), and none is a value of the table's declared element type.
\<close>

definition Object_prototype_names :: "string list" where
  "Object_prototype_names =
     [''constructor'', ''__defineGetter__'', ''__defineSetter__'', ''hasOwnProperty'',
      ''__lookupGetter__'', ''__lookupSetter__'', ''isPrototypeOf'', ''propertyIsEnumerable'',
      ''toString'', ''valueOf'', ''__proto__'', ''toLocaleString'']"

text \<open>
  What a read of a table gives when it gives something truthy: a value that has been
  registered, or an inherited member, known by its name.
\<close>

datatype 'v property = Registered 'v | Inherited string


definition inherited :: "string \<Rightarrow> 'v property option" where
  "inherited k = (if k \<in> set Object_prototype_names then Some (Inherited k) else None)"

text \<open>
  \<^verbatim>\<open>table[k]\<close> for a table whose prototype is \<^verbatim>\<open>Object.prototype\<close>; \<open>own\<close> is the map of
  its own properties.
\<close>

definition get :: "(string \<rightharpoonup> 'v) \<Rightarrow> string \<Rightarrow> 'v property option" where
  "get own k = (case own k of Some v \<Rightarrow> Some (Registered v) | None \<Rightarrow> inherited k)"

text \<open>
  An assignment \<^verbatim>\<open>table[k] = v\<close> creates or replaces the own property \<open>k\<close>, except for
  \<^verbatim>\<open>__proto__\<close>: that name is an accessor of \<^verbatim>\<open>Object.prototype\<close>, and assigning an object
  to it creates no own property but makes the object the table's prototype. From then on
  \<^verbatim>\<open>table['__proto__']\<close> reads as that object, and the table inherits the object's
  members before those of \<^verbatim>\<open>Object.prototype\<close>. \<open>proto\<close> is the object assigned, if any,
  and \<open>member v k\<close> tells whether the object \<open>v\<close> has a member \<open>k\<close> of its own and whether
  that is truthy.
\<close>

definition get_via ::
  "('v \<Rightarrow> string \<Rightarrow> bool option) \<Rightarrow> (string \<rightharpoonup> 'v) \<Rightarrow> 'v option \<Rightarrow> string \<Rightarrow>
     'v property option" where
  "get_via member own proto k =
     (case own k of
        Some v \<Rightarrow> Some (Registered v)
      | None \<Rightarrow>
          (case proto of
             None \<Rightarrow> inherited k
           | Some v \<Rightarrow>
               if k = ''__proto__'' then Some (Registered v)
               else (case member v k of
                       Some t \<Rightarrow> if t then Some (Inherited k) else None
                     | None \<Rightarrow> inherited k)))"

text \<open>
  The members of the objects the registry stores. A plugin binding is the object
  \<^verbatim>\<open>{ name: provider.name, initializer: () => ... }\<close> built by \<^verbatim>\<open>registerPluginProvider\<close>;
  schema data is \<^verbatim>\<open>{ schema?, jsonSchema? }\<close>, whose fields are objects where present. A
  store provider is a function of the caller; which properties it has beyond those of
  \<^verbatim>\<open>Object.prototype\<close>, and which assignments a table that inherits from it refuses, is
  not determined by the sources and is not modelled: the statements below about store
  providers either hold whatever those properties are, or are made for provider tables
  whose prototype has not been replaced.
\<close>

definition binding_member :: "PluginBinding \<Rightarrow> string \<Rightarrow> bool option" where
  "binding_member b k =
     (if k = ''name'' then Some (pb_name b \<noteq> [])
      else if k = ''initializer'' then Some True
      else None)"

definition schema_member :: "SchemaData \<Rightarrow> string \<Rightarrow> bool option" where
  "schema_member d k =
     (if k = ''schema'' then map_option (\<lambda>_. True) (schema d)
      else if k = ''jsonSchema'' then map_option (\<lambda>_. True) (jsonSchema d)
      else None)"

definition provider_member :: "'a AsyncProvider \<Rightarrow> string \<Rightarrow> bool option" where
  "provider_member p k = None"

text \<open>
  The registry object. Each table is the map of its own properties; \<open>pluginsByName\<close> is
  an association list in insertion order, because \<^verbatim>\<open>listActions\<close> enumerates it with
  \<^verbatim>\<open>Object.keys\<close>. The fields \<open>_proto\<close> hold the object that has replaced the prototype
  of a table. \<open>actionsById\<close> and the two caches have none: the code assigns to
  \<open>actionsById\<close> at keys that start with \<^verbatim>\<open>/\<close> only, and to a cache at \<open>env\<close> only after
  \<^verbatim>\<open>cache[env]\<close> has read as falsy, which it does not for \<^verbatim>\<open>__proto__\<close>.
  \<open>parent\<close> is the address of the parent registry.
\<close>

record Registry =
  actionsById :: "string \<rightharpoonup> Action"
  traceStoresByEnv :: "string \<rightharpoonup> TraceStore AsyncProvider"
  flowStateStoresByEnv :: "string \<rightharpoonup> FlowStateStore AsyncProvider"
  pluginsByName :: "(string \<times> PluginBinding) list"
  schemasByName :: "string \<rightharpoonup> SchemaData"
  traceStoresByEnvCache :: "string \<rightharpoonup> TraceStore Promise"
  flowStateStoresByEnvCache :: "string \<rightharpoonup> FlowStateStore Promise"
  parent :: "nat option"
  traceStoresByEnv_proto :: "TraceStore AsyncProvider option"
  flowStateStoresByEnv_proto :: "FlowStateStore AsyncProvider option"
  pluginsByName_proto :: "PluginBinding option"
  schemasByName_proto :: "SchemaData option"

datatype level = Info | Warn

text \<open>
  \<open>calls\<close> records every call of an external function (a provider or a plugin
  initializer) with the place it was called from: the counter of the spec's
  "memoized construction" test.
\<close>

datatype call =
    TraceStoreProviderCalled nat string nat
  | FlowStateStoreProviderCalled nat string nat
  | InitializerCalled nat nat

record World =
  heap :: "Registry list"
  cells :: "InitializedPlugin Promise option list"
  global_registry :: nat
  logged :: "(level \<times> string) list"
  calls :: "call list"

definition new_Registry :: "nat option \<Rightarrow> Registry" where
  "new_Registry p =
     \<lparr>actionsById = Map.empty, traceStoresByEnv = Map.empty,
      flowStateStoresByEnv = Map.empty, pluginsByName = [], schemasByName = Map.empty,
      traceStoresByEnvCache = Map.empty, flowStateStoresByEnvCache = Map.empty,
      parent = p, traceStoresByEnv_proto = None, flowStateStoresByEnv_proto = None,
      pluginsByName_proto = None, schemasByName_proto = None\<rparr>"

text \<open>\<^verbatim>\<open>new Registry(parent)\<close>: the object is allocated at the next free address.\<close>

definition alloc :: "World \<Rightarrow> nat option \<Rightarrow> World \<times> nat" where
  "alloc w p = (w\<lparr>heap := heap w @ [new_Registry p]\<rparr>, length (heap w))"

text \<open>The module's top level: \<^verbatim>\<open>global[REGISTRY_KEY] = new Registry()\<close>.\<close>

definition init :: World where
  "init = \<lparr>heap = [new_Registry None], cells = [], global_registry = 0, logged = [],
           calls = []\<rparr>"

definition modify :: "nat \<Rightarrow> (Registry \<Rightarrow> Registry) \<Rightarrow> World \<Rightarrow> World" where
  "modify this f w = w\<lparr>heap := (heap w)[this := f (heap w ! this)]\<rparr>"

text \<open>
  \<^verbatim>\<open>registryAls.getStore() || global[REGISTRY_KEY]\<close>. The async-local store is dynamically
  scoped, so it is an explicit argument \<open>als\<close> of every function that reads it.
\<close>

definition getRegistryInstance :: "World \<Rightarrow> nat option \<Rightarrow> nat" where
  "getRegistryInstance w als = (case als of Some r \<Rightarrow> r | None \<Rightarrow> global_registry w)"

section \<open>Registrations\<close>

definition action_key :: "ActionType \<Rightarrow> Action \<Rightarrow> string" where
  "action_key ty action = ''/'' @ type_str ty @ ''/'' @ action_name action"

text \<open>
  \<^verbatim>\<open>hasOwnProperty(key)\<close> looks at the own properties; the key starts with \<^verbatim>\<open>/\<close>, so the
  assignment creates or replaces an own property.
\<close>

definition Registry_registerAction :: "World \<Rightarrow> nat \<Rightarrow> ActionType \<Rightarrow> Action \<Rightarrow> World" where
  "Registry_registerAction w this ty action =
     (let w1 = w\<lparr>logged := logged w @
                 [(Info, ''Registering '' @ type_str ty @ '': '' @ action_name action)]\<rparr>;
          k = action_key ty action;
          w2 = (if actionsById (heap w1 ! this) k \<noteq> None
                then w1\<lparr>logged := logged w1 @
                   [(Warn, ''WARNING: '' @ k @
                      '' already has an entry in the registry. Overwriting.'')]\<rparr>
                else w1)
      in modify this (\<lambda>r. r\<lparr>actionsById := (actionsById r)(k \<mapsto> action)\<rparr>) w2)"

definition Registry_registerTraceStore ::
  "World \<Rightarrow> nat \<Rightarrow> string \<Rightarrow> TraceStore AsyncProvider \<Rightarrow> World" where
  "Registry_registerTraceStore w this env traceStoreProvider =
     modify this
       (\<lambda>r. if env = ''__proto__'' then r\<lparr>traceStoresByEnv_proto := Some traceStoreProvider\<rparr>
            else r\<lparr>traceStoresByEnv := (traceStoresByEnv r)(env \<mapsto> traceStoreProvider)\<rparr>) w"

definition Registry_registerFlowStateStore ::
  "World \<Rightarrow> nat \<Rightarrow> string \<Rightarrow> FlowStateStore AsyncProvider \<Rightarrow> World" where
  "Registry_registerFlowStateStore w this env flowStateStoreProvider =
     modify this
       (\<lambda>r. if env = ''__proto__''
            then r\<lparr>flowStateStoresByEnv_proto := Some flowStateStoreProvider\<rparr>
            else r\<lparr>flowStateStoresByEnv :=
                     (flowStateStoresByEnv r)(env \<mapsto> flowStateStoreProvider)\<rparr>) w"

text \<open>
  \<^verbatim>\<open>let cached;\<close> allocates a fresh closure variable, still undefined; assigning to an
  existing property keeps its place in the enumeration order, a new property goes last.
\<close>

definition Registry_registerPluginProvider ::
  "World \<Rightarrow> nat \<Rightarrow> string \<Rightarrow> PluginProvider \<Rightarrow> World" where
  "Registry_registerPluginProvider w this nm provider =
     (let c = length (cells w);
          w1 = w\<lparr>cells := cells w @ [None]\<rparr>;
          b = \<lparr>pb_name = provider_name provider, pb_cached = c, pb_provider = provider\<rparr>
      in modify this
           (\<lambda>r. if nm = ''__proto__'' then r\<lparr>pluginsByName_proto := Some b\<rparr>
                else r\<lparr>pluginsByName := AList.update nm b (pluginsByName r)\<rparr>) w1)"

definition Registry_registerSchema :: "World \<Rightarrow> nat \<Rightarrow> string \<Rightarrow> SchemaData \<Rightarrow> World" where
  "Registry_registerSchema w this nm data =
     modify this
       (\<lambda>r. if nm = ''__proto__'' then r\<lparr>schemasByName_proto := Some data\<rparr>
            else r\<lparr>schemasByName := (schemasByName r)(nm \<mapsto> data)\<rparr>) w"

text \<open>The module-level functions dispatch to the current registry.\<close>

definition registerAction :: "World \<Rightarrow> nat option \<Rightarrow> ActionType \<Rightarrow> Action \<Rightarrow> World" where
  "registerAction w als ty action =
     Registry_registerAction w (getRegistryInstance w als) ty action"

definition registerTraceStore ::
  "World \<Rightarrow> nat option \<Rightarrow> string \<Rightarrow> TraceStore AsyncProvider \<Rightarrow> World" where
  "registerTraceStore w als env traceStoreProvider =
     Registry_registerTraceStore w (getRegistryInstance w als) env traceStoreProvider"

definition registerFlowStateStore ::
  "World \<Rightarrow> nat option \<Rightarrow> string \<Rightarrow> FlowStateStore AsyncProvider \<Rightarrow> World" where
  "registerFlowStateStore w als env flowStateStoreProvider =
     Registry_registerFlowStateStore w (getRegistryInstance w als) env flowStateStoreProvider"

definition registerPluginProvider ::
  "World \<Rightarrow> nat option \<Rightarrow> string \<Rightarrow> PluginProvider \<Rightarrow> World" where
  "registerPluginProvider w als nm provider =
     Registry_registerPluginProvider w (getRegistryInstance w als) nm provider"

definition registerSchema :: "World \<Rightarrow> nat option \<Rightarrow> string \<Rightarrow> SchemaData \<Rightarrow> World" where
  "registerSchema w als nm data =
     Registry_registerSchema w (getRegistryInstance w als) nm data"

text \<open>One registration made by a plugin initializer, through the module-level functions.\<close>

fun run_reg :: "nat option \<Rightarrow> reg \<Rightarrow> World \<Rightarrow> World" where
  "run_reg als (RegisterAction ty action) w = registerAction w als ty action"
| "run_reg als (RegisterTraceStore env p) w = registerTraceStore w als env p"
| "run_reg als (RegisterFlowStateStore env p) w = registerFlowStateStore w als env p"
| "run_reg als (RegisterPluginProvider nm p) w = registerPluginProvider w als nm p"
| "run_reg als (RegisterSchema nm data) w = registerSchema w als nm data"

section \<open>Plugins\<close>

text \<open>
  \<^verbatim>\<open>provider.initializer()\<close>: the call is recorded, the initializer's registrations run
  against the registry current for the caller, and a new promise is returned.
\<close>

definition call_initializer ::
  "World \<Rightarrow> nat option \<Rightarrow> nat \<Rightarrow> PluginProvider \<Rightarrow> World \<times> InitializedPlugin Promise" where
  "call_initializer w als c provider =
     (fold (run_reg als) (init_body provider)
        (w\<lparr>calls := calls w @ [InitializerCalled c (init_tag provider)]\<rparr>),
      Promise (length (calls w)) (init_settles provider))"

text \<open>
  The closure stored by \<^verbatim>\<open>registerPluginProvider\<close>:
  \<^verbatim>\<open>() => { if (cached) return cached; cached = provider.initializer(); return cached; }\<close>
\<close>

definition initializer ::
  "World \<Rightarrow> nat option \<Rightarrow> PluginBinding \<Rightarrow> World \<times> InitializedPlugin Promise" where
  "initializer w als b =
     (case cells w ! pb_cached b of
        Some p \<Rightarrow> (w, p)
      | None \<Rightarrow>
          (case call_initializer w als (pb_cached b) (pb_provider b) of
             (w1, p) \<Rightarrow> (w1\<lparr>cells := (cells w1)[pb_cached b := Some p]\<rparr>, p)))"

text \<open>\<^verbatim>\<open>this.pluginsByName[name]\<close>, \<^verbatim>\<open>this.schemasByName[name]\<close> and the provider tables.\<close>

definition plugin_at :: "Registry \<Rightarrow> string \<Rightarrow> PluginBinding property option" where
  "plugin_at r nm = get_via binding_member (map_of (pluginsByName r)) (pluginsByName_proto r) nm"

definition schema_at :: "Registry \<Rightarrow> string \<Rightarrow> SchemaData property option" where
  "schema_at r nm = get_via schema_member (schemasByName r) (schemasByName_proto r) nm"

definition traceStore_at :: "Registry \<Rightarrow> string \<Rightarrow> TraceStore AsyncProvider property option" where
  "traceStore_at r env =
     get_via provider_member (traceStoresByEnv r) (traceStoresByEnv_proto r) env"

definition flowStateStore_at ::
  "Registry \<Rightarrow> string \<Rightarrow> FlowStateStore AsyncProvider property option" where
  "flowStateStore_at r env =
     get_via provider_member (flowStateStoresByEnv r) (flowStateStoresByEnv_proto r) env"

text \<open>
  \<^verbatim>\<open>if (this.pluginsByName[name]) return await this.pluginsByName[name].initializer();\<close>
  An inherited member is truthy and has no \<^verbatim>\<open>initializer\<close>: the call throws.
\<close>

definition Registry_initializePlugin ::
  "World \<Rightarrow> nat option \<Rightarrow> nat \<Rightarrow> string \<Rightarrow> World \<times> InitializedPlugin option outcome" where
  "Registry_initializePlugin w als this nm =
     (case plugin_at (heap w ! this) nm of
        Some (Registered b) \<Rightarrow>
          (case initializer w als b of
             (w1, p) \<Rightarrow>
               (case await p of
                  Returned v \<Rightarrow> (w1, Returned (Some v))
                | Thrown e \<Rightarrow> (w1, Thrown e)
                | ReturnedMember m \<Rightarrow> (w1, ReturnedMember m)))
      | Some (Inherited k) \<Rightarrow> (w, Thrown TypeError)
      | None \<Rightarrow> (w, Returned None))"

section \<open>Looking up actions\<close>

text \<open>\<^verbatim>\<open>registryKey.split('/')\<close>: never empty; an empty key gives one empty token.\<close>

fun str_split :: "char \<Rightarrow> string \<Rightarrow> string list" where
  "str_split c [] = [[]]"
| "str_split c (x # xs) =
     (if x = c then [] # str_split c xs
      else (case str_split c xs of
              t # ts \<Rightarrow> (x # t) # ts
            | [] \<Rightarrow> [[x]]))"

definition parsePluginName :: "string \<Rightarrow> string option" where
  "parsePluginName registryKey =
     (let tokens = str_split CHR ''/'' registryKey
      in if length tokens = 4 then Some (tokens ! 2) else None)"

text \<open>The truthiness of \<^verbatim>\<open>pluginName\<close>: neither \<^verbatim>\<open>undefined\<close> nor the empty string.\<close>

fun truthy :: "string option \<Rightarrow> bool" where
  "truthy None = False"
| "truthy (Some s) = (s \<noteq> [])"

text \<open>
  The constructor takes an existing registry as parent and \<open>alloc\<close> hands out increasing
  addresses, so a parent's address is below its child's. The walk up the chain recurses
  on that; the \<open>CyclicChain\<close> branch is unreachable in the heaps the program builds.
\<close>

function Registry_lookupAction ::
  "World \<Rightarrow> nat option \<Rightarrow> nat \<Rightarrow> string \<Rightarrow> World \<times> Action option outcome" where
  "Registry_lookupAction w als this k =
     (let pluginName = parsePluginName k in
      case (if get (actionsById (heap w ! this)) k = None \<and> truthy pluginName
            then Registry_initializePlugin w als this (the pluginName)
            else (w, Returned None)) of
        (w1, Thrown e) \<Rightarrow> (w1, Thrown e)
      | (w1, _) \<Rightarrow>
          (case get (actionsById (heap w1 ! this)) k of
             Some (Registered a) \<Rightarrow> (w1, Returned (Some a))
           | Some (Inherited m) \<Rightarrow> (w1, ReturnedMember m)
           | None \<Rightarrow>
               (case parent (heap w1 ! this) of
                  None \<Rightarrow> (w1, Returned None)
                | Some p \<Rightarrow>
                    if p < this then Registry_lookupAction w1 als p k
                    else (w1, Thrown CyclicChain))))"
  by pat_completeness auto
termination
  by (relation "measure (\<lambda>(w, als, this, k). this)") auto

definition lookupAction :: "World \<Rightarrow> nat option \<Rightarrow> string \<Rightarrow> World \<times> Action option outcome" where
  "lookupAction w als k = Registry_lookupAction w als (getRegistryInstance w als) k"

section \<open>Listing actions\<close>

text \<open>
  \<^verbatim>\<open>Object.keys\<close>: the keys that are array indices (canonical decimal numerals below
  \<open>2^32 - 1\<close>) come first, in ascending numeric order, then the other keys in insertion
  order.
\<close>

definition is_digit :: "char \<Rightarrow> bool" where
  "is_digit c = (48 \<le> (of_char c :: nat) \<and> (of_char c :: nat) \<le> 57)"

definition digits_nat :: "string \<Rightarrow> nat" where
  "digits_nat s = fold (\<lambda>c n. 10 * n + ((of_char c :: nat) - 48)) s 0"

definition is_array_index :: "string \<Rightarrow> bool" where
  "is_array_index s =
     (s \<noteq> [] \<and> list_all is_digit s \<and> (s = ''0'' \<or> hd s \<noteq> CHR ''0'') \<and>
      digits_nat s < 2 ^ 32 - 1)"

definition object_keys :: "(string \<times> 'a) list \<Rightarrow> string list" where
  "object_keys al =
     (let ks = map fst al
      in sort_key digits_nat (filter is_array_index ks) @
         filter (\<lambda>k. \<not> is_array_index k) ks)"

text \<open>
  The loop \<^verbatim>\<open>for (const pluginName of Object.keys(this.pluginsByName))\<close> over the own
  keys enumerated when it starts; a rejected initializer leaves the loop. The spread
  \<^verbatim>\<open>{...parentActions, ...this.actionsById}\<close> copies own properties.
\<close>

fun initializePlugins ::
  "World \<Rightarrow> nat option \<Rightarrow> nat \<Rightarrow> string list \<Rightarrow> World \<times> unit outcome" where
  "initializePlugins w als this [] = (w, Returned ())"
| "initializePlugins w als this (pluginName # rest) =
     (case Registry_initializePlugin w als this pluginName of
        (w1, Thrown e) \<Rightarrow> (w1, Thrown e)
      | (w1, _) \<Rightarrow> initializePlugins w1 als this rest)"

function Registry_listActions ::
  "World \<Rightarrow> nat option \<Rightarrow> nat \<Rightarrow> World \<times> (string \<rightharpoonup> Action) outcome" where
  "Registry_listActions w als this =
     (case initializePlugins w als this (object_keys (pluginsByName (heap w ! this))) of
        (w1, Thrown e) \<Rightarrow> (w1, Thrown e)
      | (w1, _) \<Rightarrow>
          (case parent (heap w1 ! this) of
             None \<Rightarrow> (w1, Returned (Map.empty ++ actionsById (heap w1 ! this)))
           | Some p \<Rightarrow>
               if p < this then
                 (case Registry_listActions w1 als p of
                    (w2, Thrown e) \<Rightarrow> (w2, Thrown e)
                  | (w2, ReturnedMember m) \<Rightarrow> (w2, ReturnedMember m)
                  | (w2, Returned parentActions) \<Rightarrow>
                      (w2, Returned (parentActions ++ actionsById (heap w2 ! this))))
               else (w1, Thrown CyclicChain)))"
  by pat_completeness auto
termination
  by (relation "measure (\<lambda>(w, als, this). this)") auto

definition listActions :: "World \<Rightarrow> nat option \<Rightarrow> World \<times> (string \<rightharpoonup> Action) outcome" where
  "listActions w als = Registry_listActions w als (getRegistryInstance w als)"

section \<open>Trace stores and flow state stores\<close>

text \<open>
  \<^verbatim>\<open>lookupOverlaidTraceStore\<close> has no \<^verbatim>\<open>await\<close> in its body: the call runs to its end
  before the caller is suspended. The result is what it returns: the promise its own
  promise follows, or an inherited member its promise resolves to (\<open>None\<close>: it resolves
  to \<^verbatim>\<open>undefined\<close>).
  The cache inherits every name of \<^verbatim>\<open>Object.prototype\<close> that the provider table does, so
  where the provider read is an inherited member the cache read is truthy and is
  returned: the branch that would call an inherited member is never taken (lemma
  \<open>inherited_provider_cached\<close>), and the model gives it a rejected promise. The cache is
  assigned at an \<open>env\<close> for which it read as falsy, which creates an own property.
\<close>

definition Registry_lookupOverlaidTraceStore ::
  "World \<Rightarrow> nat \<Rightarrow> string \<Rightarrow> World \<times> TraceStore Promise property option" where
  "Registry_lookupOverlaidTraceStore w this env =
     (case traceStore_at (heap w ! this) env of
        None \<Rightarrow> (w, None)
      | Some found \<Rightarrow>
          (case get (traceStoresByEnvCache (heap w ! this)) env of
             None \<Rightarrow>
               (case found of
                  Registered provider \<Rightarrow>
                    (let newStore = Promise (length (calls w)) (yields provider);
                         w1 = w\<lparr>calls := calls w @
                                 [TraceStoreProviderCalled this env (tag provider)]\<rparr>
                     in (modify this
                           (\<lambda>r. r\<lparr>traceStoresByEnvCache :=
                                    (traceStoresByEnvCache r)(env \<mapsto> newStore)\<rparr>) w1,
                         Some (Registered newStore)))
                | Inherited m \<Rightarrow>
                    (w, Some (Registered (Promise (length (calls w)) (Rejects TypeError)))))
           | Some cached \<Rightarrow> (w, Some cached)))"

function Registry_lookupTraceStore ::
  "World \<Rightarrow> nat \<Rightarrow> string \<Rightarrow> World \<times> TraceStore option outcome" where
  "Registry_lookupTraceStore w this env =
     (case Registry_lookupOverlaidTraceStore w this env of
        (w1, Some (Registered pr)) \<Rightarrow>
          (case await pr of
             Thrown e \<Rightarrow> (w1, Thrown e)
           | Returned store \<Rightarrow> (w1, Returned (Some store))
           | ReturnedMember m \<Rightarrow> (w1, ReturnedMember m))
      | (w1, Some (Inherited m)) \<Rightarrow> (w1, ReturnedMember m)
      | (w1, None) \<Rightarrow>
          (case parent (heap w1 ! this) of
             None \<Rightarrow> (w1, Returned None)
           | Some p \<Rightarrow>
               if p < this then Registry_lookupTraceStore w1 p env
               else (w1, Thrown CyclicChain)))"
  by pat_completeness auto
termination
  by (relation "measure (\<lambda>(w, this, env). this)") auto

definition lookupTraceStore ::
  "World \<Rightarrow> nat option \<Rightarrow> string \<Rightarrow> World \<times> TraceStore option outcome" where
  "lookupTraceStore w als env = Registry_lookupTraceStore w (getRegistryInstance w als) env"

definition Registry_lookupOverlaidFlowStateStore ::
  "World \<Rightarrow> nat \<Rightarrow> string \<Rightarrow> World \<times> FlowStateStore Promise property option" where
  "Registry_lookupOverlaidFlowStateStore w this env =
     (case flowStateStore_at (heap w ! this) env of
        None \<Rightarrow> (w, None)
      | Some found \<Rightarrow>
          (case get (flowStateStoresByEnvCache (heap w ! this)) env of
             None \<Rightarrow>
               (case found of
                  Registered provider \<Rightarrow>
                    (let newStore = Promise (length (calls w)) (yields provider);
                         w1 = w\<lparr>calls := calls w @
                                 [FlowStateStoreProviderCalled this env (tag provider)]\<rparr>
                     in (modify this
                           (\<lambda>r. r\<lparr>flowStateStoresByEnvCache :=
                                    (flowStateStoresByEnvCache r)(env \<mapsto> newStore)\<rparr>) w1,
                         Some (Registered newStore)))
                | Inherited m \<Rightarrow>
                    (w, Some (Registered (Promise (length (calls w)) (Rejects TypeError)))))
           | Some cached \<Rightarrow> (w, Some cached)))"

function Registry_lookupFlowStateStore ::
  "World \<Rightarrow> nat \<Rightarrow> string \<Rightarrow> World \<times> FlowStateStore option outcome" where
  "Registry_lookupFlowStateStore w this env =
     (case Registry_lookupOverlaidFlowStateStore w this env of
        (w1, Some (Registered pr)) \<Rightarrow>
          (case await pr of
             Thrown e \<Rightarrow> (w1, Thrown e)
           | Returned store \<Rightarrow> (w1, Returned (Some store))
           | ReturnedMember m \<Rightarrow> (w1, ReturnedMember m))
      | (w1, Some (Inherited m)) \<Rightarrow> (w1, ReturnedMember m)
      | (w1, None) \<Rightarrow>
          (case parent (heap w1 ! this) of
             None \<Rightarrow> (w1, Returned None)
           | Some p \<Rightarrow>
               if p < this then Registry_lookupFlowStateStore w1 p env
               else (w1, Thrown CyclicChain)))"
  by pat_completeness auto
termination
  by (relation "measure (\<lambda>(w, this, env). this)") auto

definition lookupFlowStateStore ::
  "World \<Rightarrow> nat option \<Rightarrow> string \<Rightarrow> World \<times> FlowStateStore option outcome" where
  "lookupFlowStateStore w als env =
     Registry_lookupFlowStateStore w (getRegistryInstance w als) env"

section \<open>Plugin and schema lookups\<close>

function Registry_lookupPlugin :: "World \<Rightarrow> nat \<Rightarrow> string \<Rightarrow> PluginBinding option outcome" where
  "Registry_lookupPlugin w this nm =
     (case plugin_at (heap w ! this) nm of
        Some (Registered b) \<Rightarrow> Returned (Some b)
      | Some (Inherited m) \<Rightarrow> ReturnedMember m
      | None \<Rightarrow>
          (case parent (heap w ! this) of
             None \<Rightarrow> Returned None
           | Some p \<Rightarrow>
               if p < this then Registry_lookupPlugin w p nm else Thrown CyclicChain))"
  by pat_completeness auto
termination
  by (relation "measure (\<lambda>(w, this, nm). this)") auto

text \<open>
  The module-level function, as the source has it:
  \<^verbatim>\<open>return getRegistryInstance().lookupFlowStateStore(name);\<close>
\<close>

definition lookupPlugin ::
  "World \<Rightarrow> nat option \<Rightarrow> string \<Rightarrow> World \<times> FlowStateStore option outcome" where
  "lookupPlugin w als nm = Registry_lookupFlowStateStore w (getRegistryInstance w als) nm"

definition initializePlugin ::
  "World \<Rightarrow> nat option \<Rightarrow> string \<Rightarrow> World \<times> InitializedPlugin option outcome" where
  "initializePlugin w als nm = Registry_initializePlugin w als (getRegistryInstance w als) nm"

function Registry_lookupSchema :: "World \<Rightarrow> nat \<Rightarrow> string \<Rightarrow> SchemaData option outcome" where
  "Registry_lookupSchema w this nm =
     (case schema_at (heap w ! this) nm of
        Some (Registered d) \<Rightarrow> Returned (Some d)
      | Some (Inherited m) \<Rightarrow> ReturnedMember m
      | None \<Rightarrow>
          (case parent (heap w ! this) of
             None \<Rightarrow> Returned None
           | Some p \<Rightarrow>
               if p < this then Registry_lookupSchema w p nm else Thrown CyclicChain))"
  by pat_completeness auto
termination
  by (relation "measure (\<lambda>(w, this, nm). this)") auto

definition lookupSchema :: "World \<Rightarrow> nat option \<Rightarrow> string \<Rightarrow> SchemaData option outcome" where
  "lookupSchema w als nm = Registry_lookupSchema w (getRegistryInstance w als) nm"

section \<open>Scopes\<close>

definition withCurrent :: "World \<Rightarrow> nat option \<Rightarrow> World \<times> nat" where
  "withCurrent w als = alloc w (Some (getRegistryInstance w als))"

definition withParent :: "World \<Rightarrow> nat \<Rightarrow> World \<times> nat" where
  "withParent w p = alloc w (Some p)"

text \<open>
  \<^verbatim>\<open>registryAls.run(registry, () => fn(registry))\<close>: \<open>fn\<close> runs with the store bound to
  \<open>registry\<close>; the caller's own binding is untouched.
\<close>

definition runInRegistry :: "World \<Rightarrow> nat \<Rightarrow> (World \<Rightarrow> nat option \<Rightarrow> nat \<Rightarrow> 'a) \<Rightarrow> 'a" where
  "runInRegistry w registry fn = fn w (Some registry) registry"

definition runInIsolatedRegistry :: "World \<Rightarrow> (World \<Rightarrow> nat option \<Rightarrow> nat \<Rightarrow> 'a) \<Rightarrow> 'a" where
  "runInIsolatedRegistry w fn = (case alloc w None of (w1, registry) \<Rightarrow> runInRegistry w1 registry fn)"

definition runInTempRegistry ::
  "World \<Rightarrow> nat option \<Rightarrow> (World \<Rightarrow> nat option \<Rightarrow> nat \<Rightarrow> 'a) \<Rightarrow> 'a" where
  "runInTempRegistry w als fn =
     (case withCurrent w als of (w1, registry) \<Rightarrow> runInRegistry w1 registry fn)"

definition hardResetRegistryForTesting :: "World \<Rightarrow> World" where
  "hardResetRegistryForTesting w =
     (case alloc w None of (w1, registry) \<Rightarrow> w1\<lparr>global_registry := registry\<rparr>)"

section \<open>Well-formed heaps and what an operation leaves unchanged\<close>

declare Registry_lookupAction.simps [simp del]
declare Registry_listActions.simps [simp del]
declare Registry_lookupTraceStore.simps [simp del]
declare Registry_lookupFlowStateStore.simps [simp del]
declare Registry_lookupPlugin.simps [simp del]
declare Registry_lookupSchema.simps [simp del]

text \<open>The five tables of a registry, each with the object that replaced its prototype.\<close>

definition tables ::
  "Registry \<Rightarrow> (string \<rightharpoonup> Action) \<times>
     ((string \<rightharpoonup> TraceStore AsyncProvider) \<times> TraceStore AsyncProvider option) \<times>
     ((string \<rightharpoonup> FlowStateStore AsyncProvider) \<times> FlowStateStore AsyncProvider option) \<times>
     ((string \<times> PluginBinding) list \<times> PluginBinding option) \<times>
     ((string \<rightharpoonup> SchemaData) \<times> SchemaData option)" where
  "tables r =
     (actionsById r, (traceStoresByEnv r, traceStoresByEnv_proto r),
      (flowStateStoresByEnv r, flowStateStoresByEnv_proto r),
      (pluginsByName r, pluginsByName_proto r),
      (schemasByName r, schemasByName_proto r))"

definition parents_below :: "World \<Rightarrow> bool" where
  "parents_below w =
     list_all (\<lambda>n. case parent (heap w ! n) of None \<Rightarrow> True | Some p \<Rightarrow> p < n)
       [0..<length (heap w)]"

definition frame :: "nat \<Rightarrow> World \<Rightarrow> World \<Rightarrow> bool" where
  "frame cur w w' =
     (length (heap w') = length (heap w) \<and> global_registry w' = global_registry w \<and>
      (\<forall>n. parent (heap w' ! n) = parent (heap w ! n)) \<and>
      (\<forall>n. n \<noteq> cur \<longrightarrow> tables (heap w' ! n) = tables (heap w ! n)))"

section \<open>Callers\<close>

text \<open>
  The function handed to \<^verbatim>\<open>runInTempRegistry\<close> is caller code. It is modelled as a script
  of calls of the module-level functions, each awaited before the next and the first
  rejection ending the script, and of nested scopes.
\<close>

datatype cmd =
    Register reg
  | LookupAction string
  | ListActions
  | LookupTraceStore string
  | LookupFlowStateStore string
  | LookupPlugin string
  | InitializePlugin string
  | LookupSchema string
  | HardResetRegistryForTesting
  | RunInTempRegistry "cmd list"
  | RunInIsolatedRegistry "cmd list"

definition discard :: "World \<times> 'a outcome \<Rightarrow> World \<times> unit outcome" where
  "discard r = (fst r, map_outcome (\<lambda>_. ()) (snd r))"

lemma runInTempRegistry_cong [fundef_cong]:
  "w = w' \<Longrightarrow> als = als' \<Longrightarrow> (\<And>w1 a r. fn w1 a r = fn' w1 a r) \<Longrightarrow>
   runInTempRegistry w als fn = runInTempRegistry w' als' fn'"
  by (simp add: runInTempRegistry_def runInRegistry_def split: prod.splits)

lemma runInIsolatedRegistry_cong [fundef_cong]:
  "w = w' \<Longrightarrow> (\<And>w1 a r. fn w1 a r = fn' w1 a r) \<Longrightarrow>
   runInIsolatedRegistry w fn = runInIsolatedRegistry w' fn'"
  by (simp add: runInIsolatedRegistry_def runInRegistry_def split: prod.splits)

fun run_cmd :: "World \<Rightarrow> nat option \<Rightarrow> cmd \<Rightarrow> World \<times> unit outcome"
  and run_cmds :: "World \<Rightarrow> nat option \<Rightarrow> cmd list \<Rightarrow> World \<times> unit outcome" where
  "run_cmd w als (Register r) = (run_reg als r w, Returned ())"
| "run_cmd w als (LookupAction k) = discard (lookupAction w als k)"
| "run_cmd w als ListActions = discard (listActions w als)"
| "run_cmd w als (LookupTraceStore env) = discard (lookupTraceStore w als env)"
| "run_cmd w als (LookupFlowStateStore env) = discard (lookupFlowStateStore w als env)"
| "run_cmd w als (LookupPlugin nm) = discard (lookupPlugin w als nm)"
| "run_cmd w als (InitializePlugin nm) = discard (initializePlugin w als nm)"
| "run_cmd w als (LookupSchema nm) = (w, map_outcome (\<lambda>_. ()) (lookupSchema w als nm))"
| "run_cmd w als HardResetRegistryForTesting = (hardResetRegistryForTesting w, Returned ())"
| "run_cmd w als (RunInTempRegistry fn) =
     runInTempRegistry w als (\<lambda>w1 als1 registry. run_cmds w1 als1 fn)"
| "run_cmd w als (RunInIsolatedRegistry fn) =
     runInIsolatedRegistry w (\<lambda>w1 als1 registry. run_cmds w1 als1 fn)"
| "run_cmds w als [] = (w, Returned ())"
| "run_cmds w als (c # cs) =
     (case run_cmd w als c of
        (w1, Thrown e) \<Rightarrow> (w1, Thrown e)
      | (w1, _) \<Rightarrow> run_cmds w1 als cs)"

section \<open>Interleaved callers\<close>

text \<open>
  Asynchronous calls interleave only at their suspension points. What runs between two
  suspension points is a sequence of the segments below, each of which runs to its end
  before anything else does: a registration (made under some async-local store), the
  call of \<^verbatim>\<open>lookupOverlaidTraceStore\<close> or \<^verbatim>\<open>lookupOverlaidFlowStateStore\<close> with which a
  store lookup on a node starts (and continues on the parent after its \<^verbatim>\<open>await\<close>), the
  call of \<^verbatim>\<open>initializePlugin\<close> up to its \<^verbatim>\<open>await\<close>, a constructor call, and the test reset.
  Reads of the tables change nothing and are left out.
\<close>

datatype segment =
    CallRegister "nat option" reg
  | CallLookupOverlaidTraceStore nat string
  | CallLookupOverlaidFlowStateStore nat string
  | CallInitializePlugin "nat option" nat string
  | CallNewRegistry "nat option"
  | CallHardReset

text \<open>A segment refers to registries that exist.\<close>

fun seg_ok :: "World \<Rightarrow> segment \<Rightarrow> bool" where
  "seg_ok w (CallRegister als r) = (getRegistryInstance w als < length (heap w))"
| "seg_ok w (CallLookupOverlaidTraceStore n env) = (n < length (heap w))"
| "seg_ok w (CallLookupOverlaidFlowStateStore n env) = (n < length (heap w))"
| "seg_ok w (CallInitializePlugin als n nm) =
     (n < length (heap w) \<and> getRegistryInstance w als < length (heap w))"
| "seg_ok w (CallNewRegistry p) = (case p of None \<Rightarrow> True | Some q \<Rightarrow> q < length (heap w))"
| "seg_ok w CallHardReset = True"

fun step :: "World \<Rightarrow> segment \<Rightarrow> World" where
  "step w (CallRegister als r) = run_reg als r w"
| "step w (CallLookupOverlaidTraceStore n env) = fst (Registry_lookupOverlaidTraceStore w n env)"
| "step w (CallLookupOverlaidFlowStateStore n env) =
     fst (Registry_lookupOverlaidFlowStateStore w n env)"
| "step w (CallInitializePlugin als n nm) = fst (Registry_initializePlugin w als n nm)"
| "step w (CallNewRegistry p) = fst (alloc w p)"
| "step w CallHardReset = hardResetRegistryForTesting w"

fun run_segments :: "World \<Rightarrow> segment list \<Rightarrow> World option" where
  "run_segments w [] = Some w"
| "run_segments w (s # ss) = (if seg_ok w s then run_segments (step w s) ss else None)"

fun is_trace_call :: "nat \<Rightarrow> string \<Rightarrow> call \<Rightarrow> bool" where
  "is_trace_call n env (TraceStoreProviderCalled m e t) = (m = n \<and> e = env)"
| "is_trace_call n env (FlowStateStoreProviderCalled m e t) = False"
| "is_trace_call n env (InitializerCalled c t) = False"

fun is_flow_call :: "nat \<Rightarrow> string \<Rightarrow> call \<Rightarrow> bool" where
  "is_flow_call n env (TraceStoreProviderCalled m e t) = False"
| "is_flow_call n env (FlowStateStoreProviderCalled m e t) = (m = n \<and> e = env)"
| "is_flow_call n env (InitializerCalled c t) = False"

fun is_initializer_call :: "nat \<Rightarrow> call \<Rightarrow> bool" where
  "is_initializer_call c (TraceStoreProviderCalled m e t) = False"
| "is_initializer_call c (FlowStateStoreProviderCalled m e t) = False"
| "is_initializer_call c (InitializerCalled c' t) = (c' = c)"

text \<open>The plugin bindings a registry holds, and that each refers to an allocated variable.\<close>

definition bindings :: "Registry \<Rightarrow> PluginBinding set" where
  "bindings r = snd ` set (pluginsByName r) \<union> set_option (pluginsByName_proto r)"

definition cells_alloc :: "World \<Rightarrow> bool" where
  "cells_alloc w =
     (\<forall>n<length (heap w). \<forall>b\<in>bindings (heap w ! n). pb_cached b < length (cells w))"

text \<open>
  The memoization invariant: an external function has been called once where the memo
  (the cache slot, the closure variable) is set and never where it is not, and every
  plugin binding refers to an allocated closure variable.
\<close>

definition memo_inv :: "World \<Rightarrow> bool" where
  "memo_inv w =
     ((\<forall>n env. length (filter (is_trace_call n env) (calls w)) =
        (if n < length (heap w) \<and> traceStoresByEnvCache (heap w ! n) env \<noteq> None then 1 else 0)) \<and>
      (\<forall>n env. length (filter (is_flow_call n env) (calls w)) =
        (if n < length (heap w) \<and> flowStateStoresByEnvCache (heap w ! n) env \<noteq> None
         then 1 else 0)) \<and>
      (\<forall>c. length (filter (is_initializer_call c) (calls w)) =
        (if c < length (cells w) \<and> cells w ! c \<noteq> None then 1 else 0)) \<and>
      cells_alloc w)"

text \<open>What a registration leaves unchanged.\<close>

definition quiet :: "World \<Rightarrow> World \<Rightarrow> bool" where
  "quiet w w' =
     (calls w' = calls w \<and> length (heap w') = length (heap w) \<and>
      (\<forall>n. traceStoresByEnvCache (heap w' ! n) = traceStoresByEnvCache (heap w ! n) \<and>
           flowStateStoresByEnvCache (heap w' ! n) = flowStateStoresByEnvCache (heap w ! n)) \<and>
      (\<exists>k. cells w' = cells w @ replicate k None) \<and>
      (\<forall>n env. traceStoresByEnv (heap w ! n) env \<noteq> None \<longrightarrow>
         traceStoresByEnv (heap w' ! n) env \<noteq> None) \<and>
      (cells_alloc w \<longrightarrow> cells_alloc w'))"

text \<open>
  What any call leaves of the closure variables and the plugin tables: a variable that is
  set stays as it is, and a binding found in a table afterwards whose variable existed
  before was in that table before (a registration binds a new variable).
\<close>

definition grows :: "World \<Rightarrow> World \<Rightarrow> bool" where
  "grows w w' =
     (length (cells w) \<le> length (cells w') \<and>
      (\<forall>c<length (cells w). cells w ! c \<noteq> None \<longrightarrow> cells w' ! c = cells w ! c) \<and>
      (\<forall>n nm b. map_of (pluginsByName (heap w' ! n)) nm = Some b \<longrightarrow>
         pb_cached b < length (cells w) \<longrightarrow>
         map_of (pluginsByName (heap w ! n)) nm = Some b))"

section \<open>Reference definitions and example states\<close>

text \<open>
  The plain chain lookup of the spec ("a plain local/parent chain lookup with no
  plugin-initialization attempt"): the local entry if there is one, else the parent's
  answer, else nothing. It reads the state and changes nothing.
\<close>

function plain_chain_lookup :: "World \<Rightarrow> nat \<Rightarrow> string \<Rightarrow> Action option" where
  "plain_chain_lookup w this k =
     (case actionsById (heap w ! this) k of
        Some a \<Rightarrow> Some a
      | None \<Rightarrow>
          (case parent (heap w ! this) of
             None \<Rightarrow> None
           | Some p \<Rightarrow> if p < this then plain_chain_lookup w p k else None))"
  by pat_completeness auto
termination
  by (relation "measure (\<lambda>(w, this, k). this)") auto

declare plain_chain_lookup.simps [simp del]

text \<open>Joining tokens with the separator, the inverse of \<open>str_split\<close>.\<close>

fun str_join :: "char \<Rightarrow> string list \<Rightarrow> string" where
  "str_join c [] = []"
| "str_join c [t] = t"
| "str_join c (t # u # ts) = t @ c # str_join c (u # ts)"

text \<open>
  A child registry (address 1) of the global one (address 0), with a plugin whose
  initializer registers the model \<open>myplugin/gpt\<close>.
\<close>

definition example_plugin :: PluginProvider where
  "example_plugin =
     PluginProvider ''myplugin'' 7 [RegisterAction Model (Action ''myplugin/gpt'' 1)]
       (Fulfils (InitializedPlugin 7))"

definition example_world :: World where
  "example_world =
     Registry_registerPluginProvider (fst (withParent init 0)) 1 ''myplugin'' example_plugin"

text \<open>The same, with a flow registered on the global registry.\<close>

definition layered_world :: World where
  "layered_world = Registry_registerAction example_world 0 Flow (Action ''f'' 2)"


text \<open>
  A child (address 1) of the global registry (address 0). The global registry has a
  trace store for \<open>dev\<close>, already constructed and cached, and stores for \<open>prod\<close>; the
  child has its own providers for \<open>dev\<close>.
\<close>

definition store_world :: World where
  "store_world =
     Registry_registerFlowStateStore
       (Registry_registerFlowStateStore
          (Registry_registerTraceStore
             (Registry_registerTraceStore
                (fst (Registry_lookupTraceStore
                   (Registry_registerTraceStore (fst (withParent init 0)) 0 ''dev''
                      (AsyncProvider 1 (Fulfils (TraceStore 1))))
                   0 ''dev''))
                1 ''dev'' (AsyncProvider 2 (Fulfils (TraceStore 2))))
             0 ''prod'' (AsyncProvider 3 (Fulfils (TraceStore 3))))
          0 ''prod'' (AsyncProvider 4 (Fulfils (FlowStateStore 4))))
       1 ''dev'' (AsyncProvider 5 (Rejects (Err 5)))"

text \<open>The global registry after one lookup of each store for \<open>dev\<close>.\<close>

definition cached_world :: World where
  "cached_world =
     fst (Registry_lookupFlowStateStore
       (fst (Registry_lookupTraceStore
          (Registry_registerFlowStateStore
             (Registry_registerTraceStore init 0 ''dev'' (AsyncProvider 1 (Fulfils (TraceStore 1))))
             0 ''dev'' (AsyncProvider 2 (Fulfils (FlowStateStore 2))))
          0 ''dev''))
       0 ''dev'')"

text \<open>The global registry with two plugins, \<open>a\<close> and \<open>b\<close>.\<close>

definition two_plugin_world :: World where
  "two_plugin_world =
     Registry_registerPluginProvider
       (Registry_registerPluginProvider init 0 ''a'' example_plugin) 0 ''b''
       (PluginProvider ''b'' 8 [RegisterAction Tool (Action ''b/t'' 2)]
          (Fulfils (InitializedPlugin 8)))"

text \<open>The global registry with the example plugin registered under \<^verbatim>\<open>__proto__\<close>.\<close>

definition proto_plugin_world :: World where
  "proto_plugin_world = Registry_registerPluginProvider init 0 ''__proto__'' example_plugin"

text \<open>
  A child (address 1) of the global registry (address 0) with its own providers for the
  environment name \<open>constructor\<close>.
\<close>

definition constructor_store_world :: World where
  "constructor_store_world =
     Registry_registerFlowStateStore
       (Registry_registerTraceStore (fst (withParent init 0)) 1 ''constructor''
          (AsyncProvider 1 (Fulfils (TraceStore 1))))
       1 ''constructor'' (AsyncProvider 2 (Fulfils (FlowStateStore 2)))"

text \<open>The same pair of registries, with providers for \<open>constructor\<close> and \<open>dev\<close> on the parent.\<close>

definition constructor_parent_world :: World where
  "constructor_parent_world =
     Registry_registerTraceStore
       (Registry_registerTraceStore (fst (withParent init 0)) 0 ''constructor''
          (AsyncProvider 1 (Fulfils (TraceStore 1))))
       0 ''dev'' (AsyncProvider 3 (Fulfils (TraceStore 3)))"

text \<open>The global registry after two registrations of each store under \<open>constructor\<close>.\<close>

definition constructor_twice_world :: World where
  "constructor_twice_world =
     Registry_registerFlowStateStore
       (Registry_registerFlowStateStore
          (Registry_registerTraceStore
             (Registry_registerTraceStore init 0 ''constructor''
                (AsyncProvider 1 (Fulfils (TraceStore 1))))
             0 ''constructor'' (AsyncProvider 2 (Fulfils (TraceStore 2))))
          0 ''constructor'' (AsyncProvider 3 (Fulfils (FlowStateStore 3))))
       0 ''constructor'' (AsyncProvider 4 (Fulfils (FlowStateStore 4)))"

text \<open>The same again, with the child shadowing the flow of the global registry.\<close>

definition shadow_world :: World where
  "shadow_world = Registry_registerAction layered_world 1 Flow (Action ''f'' 3)"

text \<open>
  What a run leaves unchanged: the tables and parent of every registry at an address below
  \<open>N\<close>; the heap may grow.
\<close>

definition unchanged_below :: "nat \<Rightarrow> World \<Rightarrow> World \<Rightarrow> bool" where
  "unchanged_below N w w' =
     (length (heap w) \<le> length (heap w') \<and>
      (\<forall>n<N. tables (heap w' ! n) = tables (heap w ! n) \<and>
              parent (heap w' ! n) = parent (heap w ! n)))"

text \<open>A caller script: a registration and a lookup that triggers a plugin of the parent.\<close>

definition temp_script :: "cmd list" where
  "temp_script =
     [Register (RegisterAction Tool (Action ''t'' 4)),
      LookupAction ''/model/myplugin/gpt'']"

text \<open>The in-flight result \<open>pr\<close> sits in the cache slot of node \<open>n\<close> for \<open>env\<close>.\<close>

definition slot :: "World \<Rightarrow> nat \<Rightarrow> string \<Rightarrow> TraceStore Promise \<Rightarrow> bool" where
  "slot w n env pr =
     (n < length (heap w) \<and> traceStoresByEnv (heap w ! n) env \<noteq> None \<and>
      traceStoresByEnvCache (heap w ! n) env = Some pr)"

text \<open>
  Two callers of \<^verbatim>\<open>lookupTraceStore('dev')\<close> on the global registry, interleaved: both run
  their first segment before either resumes.
\<close>

definition two_lookups :: "segment list" where
  "two_lookups =
     [CallRegister None (RegisterTraceStore ''dev'' (AsyncProvider 1 (Fulfils (TraceStore 1)))),
      CallLookupOverlaidTraceStore 0 ''dev'',
      CallLookupOverlaidTraceStore 0 ''dev'']"

text \<open>A plugin registered, initialized, registered again under the same name, initialized.\<close>

definition reregistration :: "segment list" where
  "reregistration =
     [CallRegister None
        (RegisterPluginProvider ''p'' (PluginProvider ''p'' 9 [] (Fulfils (InitializedPlugin 9)))),
      CallInitializePlugin None 0 ''p'',
      CallRegister None
        (RegisterPluginProvider ''p'' (PluginProvider ''p'' 9 [] (Fulfils (InitializedPlugin 9)))),
      CallInitializePlugin None 0 ''p'']"

section \<open>Auxiliary facts\<close>

subsection \<open>Reading a table\<close>

lemma get_own: "own k = Some v \<Longrightarrow> get own k = Some (Registered v)"
  by (simp add: get_def)

lemma get_plain:
  "k \<notin> set Object_prototype_names \<Longrightarrow> get own k = map_option Registered (own k)"
  by (simp add: get_def inherited_def split: option.splits)

lemma get_inherited:
  "k \<in> set Object_prototype_names \<Longrightarrow> own k = None \<Longrightarrow> get own k = Some (Inherited k)"
  by (simp add: get_def inherited_def)

lemma get_not_None: "k \<in> set Object_prototype_names \<Longrightarrow> get own k \<noteq> None"
  by (simp add: get_def inherited_def split: option.splits)

lemma get_via_own: "own k = Some v \<Longrightarrow> get_via member own proto k = Some (Registered v)"
  by (simp add: get_via_def)

lemma get_via_plain:
  "k \<notin> set Object_prototype_names \<Longrightarrow> proto = None \<Longrightarrow>
   get_via member own proto k = map_option Registered (own k)"
  by (simp add: get_via_def inherited_def split: option.splits)

lemma get_via_inherited:
  "k \<in> set Object_prototype_names \<Longrightarrow> own k = None \<Longrightarrow> proto = None \<Longrightarrow>
   get_via member own proto k = Some (Inherited k)"
  by (simp add: get_via_def inherited_def)

lemma proto_name: "''__proto__'' \<in> set Object_prototype_names"
  by (simp add: Object_prototype_names_def)

lemma action_key_plain: "action_key ty a \<notin> set Object_prototype_names"
  by (simp add: action_key_def Object_prototype_names_def)

text \<open>
  Where the provider table reads as an inherited member the cache does not read as
  \<^verbatim>\<open>undefined\<close>: the lookups never call an inherited member.
\<close>

lemma inherited_provider_cached:
  "traceStore_at r env = Some (Inherited m) \<Longrightarrow> get (traceStoresByEnvCache r) env \<noteq> None"
  "flowStateStore_at r env = Some (Inherited m) \<Longrightarrow> get (flowStateStoresByEnvCache r) env \<noteq> None"
  by (auto simp: traceStore_at_def flowStateStore_at_def get_via_def get_def inherited_def
      provider_member_def split: option.splits if_splits)

subsection \<open>Frames\<close>

lemma parents_belowD:
  "parents_below w \<Longrightarrow> n < length (heap w) \<Longrightarrow> parent (heap w ! n) = Some p \<Longrightarrow> p < n"
  by (auto simp: parents_below_def list_all_iff split: option.splits)

lemma frame_refl: "frame cur w w"
  by (simp add: frame_def)

lemma frame_trans: "frame cur w w1 \<Longrightarrow> frame cur w1 w2 \<Longrightarrow> frame cur w w2"
  by (simp add: frame_def)

lemma frame_parents_below: "frame cur w w' \<Longrightarrow> parents_below w \<Longrightarrow> parents_below w'"
  by (simp add: frame_def parents_below_def)

lemma heap_modify:
  "heap (modify n f w) ! m = (if m = n \<and> n < length (heap w) then f (heap w ! n) else heap w ! m)"
  by (cases "n < length (heap w)") (auto simp: modify_def nth_list_update list_update_beyond)

lemma length_heap_modify: "length (heap (modify n f w)) = length (heap w)"
  by (simp add: modify_def)

lemma frame_modify:
  "(\<And>r. parent (f r) = parent r) \<Longrightarrow> global_registry w' = global_registry w \<Longrightarrow> heap w' = heap w \<Longrightarrow>
   frame n w (modify n f w')"
  by (simp add: frame_def heap_modify length_heap_modify) (simp add: modify_def)

lemma frame_modify_cache:
  "(\<And>r. parent (f r) = parent r) \<Longrightarrow> (\<And>r. tables (f r) = tables r) \<Longrightarrow>
   global_registry w' = global_registry w \<Longrightarrow> heap w' = heap w \<Longrightarrow>
   frame cur w (modify n f w')"
  by (simp add: frame_def heap_modify length_heap_modify) (simp add: modify_def)

lemma frame_registerAction: "frame this w (Registry_registerAction w this ty a)"
  by (simp add: Registry_registerAction_def Let_def frame_modify)

lemma frame_registerTraceStore: "frame this w (Registry_registerTraceStore w this env p)"
  by (simp add: Registry_registerTraceStore_def frame_modify)

lemma frame_registerFlowStateStore: "frame this w (Registry_registerFlowStateStore w this env p)"
  by (simp add: Registry_registerFlowStateStore_def frame_modify)

lemma frame_registerPluginProvider: "frame this w (Registry_registerPluginProvider w this nm p)"
  by (simp add: Registry_registerPluginProvider_def Let_def frame_modify)

lemma frame_registerSchema: "frame this w (Registry_registerSchema w this nm d)"
  by (simp add: Registry_registerSchema_def frame_modify)

lemma getRegistryInstance_frame:
  "frame cur w w' \<Longrightarrow> getRegistryInstance w' als = getRegistryInstance w als"
  by (simp add: frame_def getRegistryInstance_def split: option.splits)

lemma frame_run_reg: "frame (getRegistryInstance w als) w (run_reg als r w)"
  by (cases r)
    (simp_all add: registerAction_def registerTraceStore_def registerFlowStateStore_def
      registerPluginProvider_def registerSchema_def frame_registerAction
      frame_registerTraceStore frame_registerFlowStateStore frame_registerPluginProvider
      frame_registerSchema)

lemma frame_fold_run_reg:
  "frame (getRegistryInstance w als) w (fold (run_reg als) rs w)"
proof (induction rs arbitrary: w)
  case Nil
  show ?case by (simp add: frame_refl)
next
  case (Cons r rs)
  have a: "frame (getRegistryInstance w als) w (run_reg als r w)"
    by (rule frame_run_reg)
  have b: "frame (getRegistryInstance (run_reg als r w) als) (run_reg als r w)
             (fold (run_reg als) rs (run_reg als r w))"
    by (rule Cons.IH)
  from a b show ?case
    by (simp add: getRegistryInstance_frame [OF a]) (rule frame_trans)
qed

lemma frame_upd_calls: "frame cur w (w\<lparr>calls := c\<rparr>)"
  by (simp add: frame_def)

lemma frame_upd_cells: "frame cur w (w\<lparr>cells := c\<rparr>)"
  by (simp add: frame_def)

lemma getRegistryInstance_calls [simp]:
  "getRegistryInstance (w\<lparr>calls := c\<rparr>) als = getRegistryInstance w als"
  by (simp add: getRegistryInstance_def split: option.splits)

lemma frame_call_initializer:
  "frame (getRegistryInstance w als) w (fst (call_initializer w als c p))"
proof -
  let ?w1 = "w\<lparr>calls := calls w @ [InitializerCalled c (init_tag p)]\<rparr>"
  have "frame (getRegistryInstance ?w1 als) ?w1 (fold (run_reg als) (init_body p) ?w1)"
    by (rule frame_fold_run_reg)
  then have "frame (getRegistryInstance w als) ?w1 (fold (run_reg als) (init_body p) ?w1)"
    by simp
  with frame_upd_calls [of "getRegistryInstance w als" w] show ?thesis
    by (simp add: call_initializer_def) (rule frame_trans)
qed

lemma frame_initializer:
  "frame (getRegistryInstance w als) w (fst (initializer w als b))"
proof (cases "cells w ! pb_cached b")
  case None
  obtain w1 p where c: "call_initializer w als (pb_cached b) (pb_provider b) = (w1, p)"
    by (cases "call_initializer w als (pb_cached b) (pb_provider b)")
  have "frame (getRegistryInstance w als) w w1"
    using frame_call_initializer [of w als "pb_cached b" "pb_provider b"] c by simp
  then have "frame (getRegistryInstance w als) w (w1\<lparr>cells := (cells w1)[pb_cached b := Some p]\<rparr>)"
    by (rule frame_trans) (rule frame_upd_cells)
  with None c show ?thesis by (simp add: initializer_def)
next
  case (Some p)
  then show ?thesis by (simp add: initializer_def frame_refl)
qed

lemma frame_initializePlugin:
  "frame (getRegistryInstance w als) w (fst (Registry_initializePlugin w als this nm))"
proof (cases "plugin_at (heap w ! this) nm")
  case None
  then show ?thesis by (simp add: Registry_initializePlugin_def frame_refl)
next
  case (Some found)
  show ?thesis
  proof (cases found)
    case (Inherited m)
    with Some show ?thesis by (simp add: Registry_initializePlugin_def frame_refl)
  next
    case (Registered b)
    obtain w1 p where i: "initializer w als b = (w1, p)"
      by (cases "initializer w als b")
    have "frame (getRegistryInstance w als) w w1"
      using frame_initializer [of w als b] i by simp
    with Some Registered i show ?thesis
      by (simp add: Registry_initializePlugin_def split: outcome.splits)
  qed
qed

lemma lookupAction_unfold:
  assumes "parents_below w" "this < length (heap w)" "k \<notin> set Object_prototype_names"
  shows "Registry_lookupAction w als this k =
     (case actionsById (heap w ! this) k of
        Some a \<Rightarrow> (w, Returned (Some a))
      | None \<Rightarrow>
          (case (case parsePluginName k of
                   Some pn \<Rightarrow>
                     if pn \<noteq> [] then Registry_initializePlugin w als this pn
                     else (w, Returned None)
                 | None \<Rightarrow> (w, Returned None)) of
             (w1, Thrown e) \<Rightarrow> (w1, Thrown e)
           | (w1, _) \<Rightarrow>
               (case actionsById (heap w1 ! this) k of
                  Some a \<Rightarrow> (w1, Returned (Some a))
                | None \<Rightarrow>
                    (case parent (heap w ! this) of
                       None \<Rightarrow> (w1, Returned None)
                     | Some p \<Rightarrow> Registry_lookupAction w1 als p k))))"
proof (cases "actionsById (heap w ! this) k")
  case (Some a)
  then show ?thesis
    by (subst Registry_lookupAction.simps) (simp add: get_plain [OF assms(3)])
next
  case None
  define step where "step =
    (case parsePluginName k of
       Some pn \<Rightarrow> if pn \<noteq> [] then Registry_initializePlugin w als this pn else (w, Returned None)
     | None \<Rightarrow> (w, Returned None))"
  have fr: "frame (getRegistryInstance w als) w (fst step)"
    using frame_initializePlugin [of w als this]
    by (auto simp: step_def frame_refl split: option.splits)
  have par: "parent (heap (fst step) ! this) = parent (heap w ! this)"
    using fr by (simp add: frame_def)
  have guard: "p < this" if "parent (heap w ! this) = Some p" for p
    using parents_belowD [OF assms(1,2) that] .
  have same: "(if get (actionsById (heap w ! this)) k = None \<and> truthy (parsePluginName k)
            then Registry_initializePlugin w als this (the (parsePluginName k))
            else (w, Returned None)) = step"
    using None by (cases "parsePluginName k") (simp_all add: step_def get_plain [OF assms(3)])
  obtain w1 r where st: "step = (w1, r)"
    by (cases step)
  define rest where "rest =
     (case get (actionsById (heap w1 ! this)) k of
        Some (Registered a) \<Rightarrow> (w1, Returned (Some a))
      | Some (Inherited m) \<Rightarrow> (w1, ReturnedMember m)
      | None \<Rightarrow>
          (case parent (heap w1 ! this) of
             None \<Rightarrow> (w1, Returned None)
           | Some p \<Rightarrow>
               if p < this then Registry_lookupAction w1 als p k
               else (w1, Thrown CyclicChain)))"
  have lhs: "Registry_lookupAction w als this k =
     (case r of Thrown e \<Rightarrow> (w1, Thrown e) | _ \<Rightarrow> rest)"
    by (subst Registry_lookupAction.simps) (simp only: Let_def same st prod.case rest_def)
  have par1: "parent (heap w1 ! this) = parent (heap w ! this)"
    using par st by simp
  have rest: "rest =
     (case actionsById (heap w1 ! this) k of
        Some a \<Rightarrow> (w1, Returned (Some a))
      | None \<Rightarrow>
          (case parent (heap w ! this) of
             None \<Rightarrow> (w1, Returned None)
           | Some p \<Rightarrow> Registry_lookupAction w1 als p k))"
    using guard by (simp add: rest_def par1 get_plain [OF assms(3)] split: option.splits)
  show ?thesis
    unfolding lhs rest using None st
    by (simp add: step_def [symmetric] split: outcome.splits)
qed

subsection \<open>Splitting a key\<close>

lemma str_split_not_Nil: "str_split c s \<noteq> []"
  by (induction s) (auto split: list.splits)

lemma length_str_split: "length (str_split c s) = Suc (count_list s c)"
  by (induction s) (auto split: list.splits simp: str_split_not_Nil)

lemma str_join_split: "str_join c (str_split c s) = s"
proof (induction s)
  case Nil
  show ?case by simp
next
  case (Cons x xs)
  obtain t ts where sp: "str_split c xs = t # ts"
    using str_split_not_Nil [of c xs] by (cases "str_split c xs") auto
  show ?case
  proof (cases "x = c")
    case True
    with Cons sp show ?thesis by simp
  next
    case False
    with Cons sp show ?thesis by (cases ts) auto
  qed
qed

lemma str_split_no_separator: "t \<in> set (str_split c s) \<Longrightarrow> c \<notin> set t"
  by (induction s arbitrary: t) (auto split: if_splits list.splits)

subsection \<open>Lookups that infer no plugin\<close>

lemma lookupAction_no_plugin:
  assumes "parsePluginName k = None" "parents_below w" "k \<notin> set Object_prototype_names"
  shows "this < length (heap w) \<Longrightarrow>
         Registry_lookupAction w als this k = (w, Returned (plain_chain_lookup w this k))"
proof (induction this rule: less_induct)
  case (less n)
  have below: "p < n" if "parent (heap w ! n) = Some p" for p
    using parents_belowD [OF assms(2) less.prems that] .
  show ?case
  proof (cases "actionsById (heap w ! n) k")
    case (Some a)
    then show ?thesis
      by (simp add: lookupAction_unfold [OF assms(2) less.prems assms(3)]
          plain_chain_lookup.simps [of w n])
  next
    case None
    show ?thesis
    proof (cases "parent (heap w ! n)")
      case no_parent: None
      with None assms(1) show ?thesis
        by (simp add: lookupAction_unfold [OF assms(2) less.prems assms(3)]
            plain_chain_lookup.simps [of w n])
    next
      case (Some p)
      have "p < n" using below Some by simp
      moreover have "Registry_lookupAction w als p k = (w, Returned (plain_chain_lookup w p k))"
        using less.IH [of p] \<open>p < n\<close> less.prems by simp
      ultimately show ?thesis
        using None Some assms(1)
        by (simp add: lookupAction_unfold [OF assms(2) less.prems assms(3)]
            plain_chain_lookup.simps [of w n])
    qed
  qed
qed

lemma plain_chain_lookup_nowhere:
  assumes "\<And>n. n < length (heap w) \<Longrightarrow> actionsById (heap w ! n) k = None" "parents_below w"
  shows "this < length (heap w) \<Longrightarrow> plain_chain_lookup w this k = None"
proof (induction this rule: less_induct)
  case (less n)
  have local: "actionsById (heap w ! n) k = None"
    using assms(1) less.prems .
  show ?case
  proof (cases "parent (heap w ! n)")
    case None
    with local show ?thesis by (simp add: plain_chain_lookup.simps [of w n])
  next
    case (Some p)
    have "p < n" using parents_belowD [OF assms(2) less.prems Some] .
    with less.IH [of p] less.prems local Some show ?thesis
      by (simp add: plain_chain_lookup.simps [of w n])
  qed
qed

subsection \<open>Trace stores\<close>

lemma traceStore_at_own:
  "traceStoresByEnv r env = Some p \<Longrightarrow> traceStore_at r env = Some (Registered p)"
  by (simp add: traceStore_at_def get_via_own)

lemma traceStore_at_plain:
  "traceStore_at r env = Some found \<Longrightarrow> env \<notin> set Object_prototype_names \<Longrightarrow>
   \<exists>p. found = Registered p"
  using proto_name
  by (auto simp: traceStore_at_def get_via_def inherited_def provider_member_def
      split: option.splits if_splits)

lemma traceStore_at_unbound:
  "traceStoresByEnv r env = None \<Longrightarrow> traceStoresByEnv_proto r = None \<Longrightarrow>
   env \<notin> set Object_prototype_names \<Longrightarrow> traceStore_at r env = None"
  by (simp add: traceStore_at_def get_via_plain)

lemma traceStore_at_registerTraceStore:
  assumes "this < length (heap w)"
  shows "\<exists>q. traceStore_at (heap (Registry_registerTraceStore w this env p) ! this) env =
           Some (Registered q)"
  using assms
  by (auto simp: Registry_registerTraceStore_def heap_modify traceStore_at_def get_via_def
      split: option.splits)

lemma overlaidTraceStore_unbound:
  "traceStore_at (heap w ! this) env = None \<Longrightarrow>
   Registry_lookupOverlaidTraceStore w this env = (w, None)"
  by (simp add: Registry_lookupOverlaidTraceStore_def)

lemma overlaidTraceStore_cached:
  "traceStore_at (heap w ! this) env = Some found \<Longrightarrow>
   traceStoresByEnvCache (heap w ! this) env = Some cached \<Longrightarrow>
   Registry_lookupOverlaidTraceStore w this env = (w, Some (Registered cached))"
  by (simp add: Registry_lookupOverlaidTraceStore_def get_own)

lemma overlaidTraceStore_inherited:
  "traceStore_at (heap w ! this) env = Some found \<Longrightarrow>
   traceStoresByEnvCache (heap w ! this) env = None \<Longrightarrow>
   env \<in> set Object_prototype_names \<Longrightarrow>
   Registry_lookupOverlaidTraceStore w this env = (w, Some (Inherited env))"
  by (simp add: Registry_lookupOverlaidTraceStore_def get_inherited)

lemma overlaidTraceStore_fresh:
  "traceStore_at (heap w ! this) env = Some (Registered provider) \<Longrightarrow>
   traceStoresByEnvCache (heap w ! this) env = None \<Longrightarrow>
   env \<notin> set Object_prototype_names \<Longrightarrow>
   Registry_lookupOverlaidTraceStore w this env =
     (modify this
        (\<lambda>r. r\<lparr>traceStoresByEnvCache :=
              (traceStoresByEnvCache r)(env \<mapsto> Promise (length (calls w)) (yields provider))\<rparr>)
        (w\<lparr>calls := calls w @ [TraceStoreProviderCalled this env (tag provider)]\<rparr>),
      Some (Registered (Promise (length (calls w)) (yields provider))))"
  by (simp add: Registry_lookupOverlaidTraceStore_def Let_def get_plain)

text \<open>A call either changes nothing or is the one construction for an empty slot.\<close>

lemma overlaidTraceStore_cases [case_names same fresh]:
  obtains r where "Registry_lookupOverlaidTraceStore w this env = (w, r)"
  | provider where "traceStore_at (heap w ! this) env = Some (Registered provider)"
      and "traceStoresByEnvCache (heap w ! this) env = None"
      and "env \<notin> set Object_prototype_names"
proof (cases "traceStore_at (heap w ! this) env")
  case None
  then show ?thesis using that(1) by (simp add: overlaidTraceStore_unbound)
next
  case (Some found)
  show ?thesis
  proof (cases "traceStoresByEnvCache (heap w ! this) env")
    case cached: (Some c)
    with Some show ?thesis using that(1) by (simp add: overlaidTraceStore_cached)
  next
    case None
    show ?thesis
    proof (cases "env \<in> set Object_prototype_names")
      case True
      with Some None show ?thesis using that(1) by (simp add: overlaidTraceStore_inherited)
    next
      case False
      with traceStore_at_plain [OF Some] obtain p where "found = Registered p"
        by blast
      with Some None False show ?thesis using that(2) by simp
    qed
  qed
qed

lemma frame_overlaidTraceStore:
  "frame cur w (fst (Registry_lookupOverlaidTraceStore w this env))"
proof (cases rule: overlaidTraceStore_cases [of w this env])
  case (same r)
  then show ?thesis by (simp add: frame_refl)
next
  case (fresh provider)
  then show ?thesis
    by (simp add: overlaidTraceStore_fresh tables_def frame_modify_cache)
qed

lemma lookupTraceStore_unfold:
  assumes "parents_below w" "this < length (heap w)"
  shows "Registry_lookupTraceStore w this env =
     (case Registry_lookupOverlaidTraceStore w this env of
        (w1, Some (Registered pr)) \<Rightarrow> (w1, map_outcome Some (await pr))
      | (w1, Some (Inherited m)) \<Rightarrow> (w1, ReturnedMember m)
      | (w1, None) \<Rightarrow>
          (case parent (heap w ! this) of
             None \<Rightarrow> (w, Returned None)
           | Some p \<Rightarrow> Registry_lookupTraceStore w p env))"
proof -
  have below: "p < this" if "parent (heap w ! this) = Some p" for p
    using parents_belowD [OF assms that] .
  obtain w1 r where l: "Registry_lookupOverlaidTraceStore w this env = (w1, r)"
    by (cases "Registry_lookupOverlaidTraceStore w this env")
  show ?thesis
  proof (cases r)
    case None
    have "traceStore_at (heap w ! this) env = None"
      using l None
      by (auto simp: Registry_lookupOverlaidTraceStore_def Let_def
          split: option.splits property.splits)
    then have "w1 = w"
      using l by (simp add: overlaidTraceStore_unbound)
    with l None below show ?thesis
      by (subst Registry_lookupTraceStore.simps) (simp split: option.splits)
  next
    case (Some found)
    with l show ?thesis
      by (subst Registry_lookupTraceStore.simps)
        (simp split: outcome.splits property.splits)
  qed
qed

lemma lookupTraceStore_cached:
  assumes "traceStore_at (heap w ! this) env = Some found"
    and "traceStoresByEnvCache (heap w ! this) env = Some cached"
  shows "Registry_lookupTraceStore w this env = (w, map_outcome Some (await cached))"
  by (subst Registry_lookupTraceStore.simps)
    (simp add: overlaidTraceStore_cached [OF assms] split: outcome.splits)

lemma lookupTraceStore_fresh:
  assumes "traceStore_at (heap w ! this) env = Some (Registered provider)"
    and "traceStoresByEnvCache (heap w ! this) env = None"
    and "env \<notin> set Object_prototype_names"
  shows "Registry_lookupTraceStore w this env =
     (modify this
        (\<lambda>r. r\<lparr>traceStoresByEnvCache :=
              (traceStoresByEnvCache r)(env \<mapsto> Promise (length (calls w)) (yields provider))\<rparr>)
        (w\<lparr>calls := calls w @ [TraceStoreProviderCalled this env (tag provider)]\<rparr>),
      map_outcome Some (await (Promise (length (calls w)) (yields provider))))"
  by (subst Registry_lookupTraceStore.simps)
    (simp add: overlaidTraceStore_fresh [OF assms] split: outcome.splits)

lemma lookupTraceStore_inherited:
  assumes "traceStore_at (heap w ! this) env = Some found"
    and "traceStoresByEnvCache (heap w ! this) env = None"
    and "env \<in> set Object_prototype_names"
  shows "Registry_lookupTraceStore w this env = (w, ReturnedMember env)"
  by (subst Registry_lookupTraceStore.simps)
    (simp add: overlaidTraceStore_inherited [OF assms])

subsection \<open>Flow state stores\<close>

lemma flowStateStore_at_own:
  "flowStateStoresByEnv r env = Some p \<Longrightarrow> flowStateStore_at r env = Some (Registered p)"
  by (simp add: flowStateStore_at_def get_via_own)

lemma flowStateStore_at_plain:
  "flowStateStore_at r env = Some found \<Longrightarrow> env \<notin> set Object_prototype_names \<Longrightarrow>
   \<exists>p. found = Registered p"
  using proto_name
  by (auto simp: flowStateStore_at_def get_via_def inherited_def provider_member_def
      split: option.splits if_splits)

lemma flowStateStore_at_unbound:
  "flowStateStoresByEnv r env = None \<Longrightarrow> flowStateStoresByEnv_proto r = None \<Longrightarrow>
   env \<notin> set Object_prototype_names \<Longrightarrow> flowStateStore_at r env = None"
  by (simp add: flowStateStore_at_def get_via_plain)

lemma flowStateStore_at_registerFlowStateStore:
  assumes "this < length (heap w)"
  shows "\<exists>q. flowStateStore_at (heap (Registry_registerFlowStateStore w this env p) ! this) env =
           Some (Registered q)"
  using assms
  by (auto simp: Registry_registerFlowStateStore_def heap_modify flowStateStore_at_def get_via_def
      split: option.splits)

lemma overlaidFlowStateStore_unbound:
  "flowStateStore_at (heap w ! this) env = None \<Longrightarrow>
   Registry_lookupOverlaidFlowStateStore w this env = (w, None)"
  by (simp add: Registry_lookupOverlaidFlowStateStore_def)

lemma overlaidFlowStateStore_cached:
  "flowStateStore_at (heap w ! this) env = Some found \<Longrightarrow>
   flowStateStoresByEnvCache (heap w ! this) env = Some cached \<Longrightarrow>
   Registry_lookupOverlaidFlowStateStore w this env = (w, Some (Registered cached))"
  by (simp add: Registry_lookupOverlaidFlowStateStore_def get_own)

lemma overlaidFlowStateStore_inherited:
  "flowStateStore_at (heap w ! this) env = Some found \<Longrightarrow>
   flowStateStoresByEnvCache (heap w ! this) env = None \<Longrightarrow>
   env \<in> set Object_prototype_names \<Longrightarrow>
   Registry_lookupOverlaidFlowStateStore w this env = (w, Some (Inherited env))"
  by (simp add: Registry_lookupOverlaidFlowStateStore_def get_inherited)

lemma overlaidFlowStateStore_fresh:
  "flowStateStore_at (heap w ! this) env = Some (Registered provider) \<Longrightarrow>
   flowStateStoresByEnvCache (heap w ! this) env = None \<Longrightarrow>
   env \<notin> set Object_prototype_names \<Longrightarrow>
   Registry_lookupOverlaidFlowStateStore w this env =
     (modify this
        (\<lambda>r. r\<lparr>flowStateStoresByEnvCache :=
              (flowStateStoresByEnvCache r)(env \<mapsto> Promise (length (calls w)) (yields provider))\<rparr>)
        (w\<lparr>calls := calls w @ [FlowStateStoreProviderCalled this env (tag provider)]\<rparr>),
      Some (Registered (Promise (length (calls w)) (yields provider))))"
  by (simp add: Registry_lookupOverlaidFlowStateStore_def Let_def get_plain)

lemma overlaidFlowStateStore_cases [case_names same fresh]:
  obtains r where "Registry_lookupOverlaidFlowStateStore w this env = (w, r)"
  | provider where "flowStateStore_at (heap w ! this) env = Some (Registered provider)"
      and "flowStateStoresByEnvCache (heap w ! this) env = None"
      and "env \<notin> set Object_prototype_names"
proof (cases "flowStateStore_at (heap w ! this) env")
  case None
  then show ?thesis using that(1) by (simp add: overlaidFlowStateStore_unbound)
next
  case (Some found)
  show ?thesis
  proof (cases "flowStateStoresByEnvCache (heap w ! this) env")
    case cached: (Some c)
    with Some show ?thesis using that(1) by (simp add: overlaidFlowStateStore_cached)
  next
    case None
    show ?thesis
    proof (cases "env \<in> set Object_prototype_names")
      case True
      with Some None show ?thesis using that(1) by (simp add: overlaidFlowStateStore_inherited)
    next
      case False
      with flowStateStore_at_plain [OF Some] obtain p where "found = Registered p"
        by blast
      with Some None False show ?thesis using that(2) by simp
    qed
  qed
qed

lemma frame_overlaidFlowStateStore:
  "frame cur w (fst (Registry_lookupOverlaidFlowStateStore w this env))"
proof (cases rule: overlaidFlowStateStore_cases [of w this env])
  case (same r)
  then show ?thesis by (simp add: frame_refl)
next
  case (fresh provider)
  then show ?thesis
    by (simp add: overlaidFlowStateStore_fresh tables_def frame_modify_cache)
qed

lemma lookupFlowStateStore_unfold:
  assumes "parents_below w" "this < length (heap w)"
  shows "Registry_lookupFlowStateStore w this env =
     (case Registry_lookupOverlaidFlowStateStore w this env of
        (w1, Some (Registered pr)) \<Rightarrow> (w1, map_outcome Some (await pr))
      | (w1, Some (Inherited m)) \<Rightarrow> (w1, ReturnedMember m)
      | (w1, None) \<Rightarrow>
          (case parent (heap w ! this) of
             None \<Rightarrow> (w, Returned None)
           | Some p \<Rightarrow> Registry_lookupFlowStateStore w p env))"
proof -
  have below: "p < this" if "parent (heap w ! this) = Some p" for p
    using parents_belowD [OF assms that] .
  obtain w1 r where l: "Registry_lookupOverlaidFlowStateStore w this env = (w1, r)"
    by (cases "Registry_lookupOverlaidFlowStateStore w this env")
  show ?thesis
  proof (cases r)
    case None
    have "flowStateStore_at (heap w ! this) env = None"
      using l None
      by (auto simp: Registry_lookupOverlaidFlowStateStore_def Let_def
          split: option.splits property.splits)
    then have "w1 = w"
      using l by (simp add: overlaidFlowStateStore_unbound)
    with l None below show ?thesis
      by (subst Registry_lookupFlowStateStore.simps) (simp split: option.splits)
  next
    case (Some found)
    with l show ?thesis
      by (subst Registry_lookupFlowStateStore.simps)
        (simp split: outcome.splits property.splits)
  qed
qed

lemma lookupFlowStateStore_cached:
  assumes "flowStateStore_at (heap w ! this) env = Some found"
    and "flowStateStoresByEnvCache (heap w ! this) env = Some cached"
  shows "Registry_lookupFlowStateStore w this env = (w, map_outcome Some (await cached))"
  by (subst Registry_lookupFlowStateStore.simps)
    (simp add: overlaidFlowStateStore_cached [OF assms] split: outcome.splits)

lemma lookupFlowStateStore_fresh:
  assumes "flowStateStore_at (heap w ! this) env = Some (Registered provider)"
    and "flowStateStoresByEnvCache (heap w ! this) env = None"
    and "env \<notin> set Object_prototype_names"
  shows "Registry_lookupFlowStateStore w this env =
     (modify this
        (\<lambda>r. r\<lparr>flowStateStoresByEnvCache :=
              (flowStateStoresByEnvCache r)(env \<mapsto> Promise (length (calls w)) (yields provider))\<rparr>)
        (w\<lparr>calls := calls w @ [FlowStateStoreProviderCalled this env (tag provider)]\<rparr>),
      map_outcome Some (await (Promise (length (calls w)) (yields provider))))"
  by (subst Registry_lookupFlowStateStore.simps)
    (simp add: overlaidFlowStateStore_fresh [OF assms] split: outcome.splits)

lemma lookupFlowStateStore_inherited:
  assumes "flowStateStore_at (heap w ! this) env = Some found"
    and "flowStateStoresByEnvCache (heap w ! this) env = None"
    and "env \<in> set Object_prototype_names"
  shows "Registry_lookupFlowStateStore w this env = (w, ReturnedMember env)"
  by (subst Registry_lookupFlowStateStore.simps)
    (simp add: overlaidFlowStateStore_inherited [OF assms])

subsection \<open>Registrations call no external function\<close>

lemma calls_modify: "calls (modify n f w) = calls w"
  by (simp add: modify_def)

lemma cells_modify: "cells (modify n f w) = cells w"
  by (simp add: modify_def)

lemma logged_modify: "logged (modify n f w) = logged w"
  by (simp add: modify_def)

lemma calls_run_reg: "calls (run_reg als r w) = calls w"
  by (cases r)
    (simp_all add: registerAction_def registerTraceStore_def registerFlowStateStore_def
      registerPluginProvider_def registerSchema_def Registry_registerAction_def
      Registry_registerTraceStore_def Registry_registerFlowStateStore_def
      Registry_registerPluginProvider_def Registry_registerSchema_def Let_def calls_modify)

lemma calls_fold_run_reg: "calls (fold (run_reg als) rs w) = calls w"
  by (induction rs arbitrary: w) (simp_all add: calls_run_reg)

subsection \<open>Listing\<close>

lemma set_object_keys: "set (object_keys al) = fst ` set al"
  by (auto simp: object_keys_def Let_def)

lemma initializePlugins_Thrown:
  "Registry_initializePlugin w als this nm = (w1, Thrown e) \<Longrightarrow>
   initializePlugins w als this (nm # names) = (w1, Thrown e)"
  by simp

lemma initializePlugins_next:
  "Registry_initializePlugin w als this nm = (w1, r) \<Longrightarrow> \<forall>e. r \<noteq> Thrown e \<Longrightarrow>
   initializePlugins w als this (nm # names) = initializePlugins w1 als this names"
  by (cases r) simp_all

lemma frame_initializePlugins:
  "frame (getRegistryInstance w als) w (fst (initializePlugins w als this names))"
proof (induction names arbitrary: w)
  case Nil
  show ?case by (simp add: frame_refl)
next
  case (Cons nm names)
  obtain w1 r where i: "Registry_initializePlugin w als this nm = (w1, r)"
    by (cases "Registry_initializePlugin w als this nm")
  have a: "frame (getRegistryInstance w als) w w1"
    using frame_initializePlugin [of w als this nm] i by simp
  show ?case
  proof (cases "\<exists>e. r = Thrown e")
    case True
    with i a show ?thesis by (auto simp: initializePlugins_Thrown simp del: initializePlugins.simps)
  next
    case False
    have "frame (getRegistryInstance w1 als) w1 (fst (initializePlugins w1 als this names))"
      by (rule Cons.IH)
    then have "frame (getRegistryInstance w als) w1 (fst (initializePlugins w1 als this names))"
      by (simp add: getRegistryInstance_frame [OF a])
    with a have "frame (getRegistryInstance w als) w (fst (initializePlugins w1 als this names))"
      by (rule frame_trans)
    with False show ?thesis
      by (simp add: initializePlugins_next [OF i] del: initializePlugins.simps)
  qed
qed

lemma initializePlugins_result:
  "snd (initializePlugins w als this names) = Returned () \<or>
   (\<exists>e. snd (initializePlugins w als this names) = Thrown e)"
proof (induction names arbitrary: w)
  case Nil
  show ?case by simp
next
  case (Cons nm names)
  obtain w1 r where i: "Registry_initializePlugin w als this nm = (w1, r)"
    by (cases "Registry_initializePlugin w als this nm")
  show ?case
  proof (cases "\<exists>e. r = Thrown e")
    case True
    with i show ?thesis by (auto simp: initializePlugins_Thrown simp del: initializePlugins.simps)
  next
    case False
    with Cons.IH [of w1] show ?thesis
      by (simp add: initializePlugins_next [OF i] del: initializePlugins.simps)
  qed
qed

lemma listActions_unfold:
  assumes "parents_below w" "this < length (heap w)"
  shows "Registry_listActions w als this =
     (case initializePlugins w als this (object_keys (pluginsByName (heap w ! this))) of
        (w1, Thrown e) \<Rightarrow> (w1, Thrown e)
      | (w1, _) \<Rightarrow>
          (case parent (heap w ! this) of
             None \<Rightarrow> (w1, Returned (actionsById (heap w1 ! this)))
           | Some p \<Rightarrow>
               (case Registry_listActions w1 als p of
                  (w2, Returned parentActions) \<Rightarrow>
                    (w2, Returned (parentActions ++ actionsById (heap w2 ! this)))
                | (w2, r) \<Rightarrow> (w2, r))))"
proof -
  obtain w1 r where i:
    "initializePlugins w als this (object_keys (pluginsByName (heap w ! this))) = (w1, r)"
    by (cases "initializePlugins w als this (object_keys (pluginsByName (heap w ! this)))")
  have "frame (getRegistryInstance w als) w w1"
    using frame_initializePlugins [of w als this "object_keys (pluginsByName (heap w ! this))"] i
    by simp
  then have par: "parent (heap w1 ! this) = parent (heap w ! this)"
    by (simp add: frame_def)
  have "p < this" if "parent (heap w ! this) = Some p" for p
    using parents_belowD [OF assms that] .
  with i par show ?thesis
    by (subst Registry_listActions.simps) (simp split: outcome.splits option.splits prod.splits)
qed

lemma listActions_local_wins:
  assumes "parents_below w" "this < length (heap w)"
    and "Registry_listActions w als this = (w', Returned m)"
    and "actionsById (heap w' ! this) k = Some a"
  shows "m k = Some a"
  using assms(3,4) unfolding listActions_unfold [OF assms(1,2)]
  by (auto split: prod.splits outcome.splits option.splits)

subsection \<open>Plugins and schemas\<close>

lemma plugin_at_own:
  "map_of (pluginsByName r) nm = Some b \<Longrightarrow> plugin_at r nm = Some (Registered b)"
  by (simp add: plugin_at_def get_via_own)

lemma plugin_at_plain:
  "nm \<notin> set Object_prototype_names \<Longrightarrow> pluginsByName_proto r = None \<Longrightarrow>
   plugin_at r nm = map_option Registered (map_of (pluginsByName r) nm)"
  by (simp add: plugin_at_def get_via_plain)

lemma plugin_at_bindings: "plugin_at r nm = Some (Registered b) \<Longrightarrow> b \<in> bindings r"
  by (auto simp: plugin_at_def get_via_def bindings_def inherited_def
      split: option.splits if_splits dest!: map_of_SomeD intro: rev_image_eqI)

lemma schema_at_own: "schemasByName r nm = Some d \<Longrightarrow> schema_at r nm = Some (Registered d)"
  by (simp add: schema_at_def get_via_own)

lemma schema_at_plain:
  "nm \<notin> set Object_prototype_names \<Longrightarrow> schemasByName_proto r = None \<Longrightarrow>
   schema_at r nm = map_option Registered (schemasByName r nm)"
  by (simp add: schema_at_def get_via_plain)

lemma lookupPlugin_unfold:
  assumes "parents_below w" "this < length (heap w)"
  shows "Registry_lookupPlugin w this nm =
     (case plugin_at (heap w ! this) nm of
        Some (Registered b) \<Rightarrow> Returned (Some b)
      | Some (Inherited m) \<Rightarrow> ReturnedMember m
      | None \<Rightarrow>
          (case parent (heap w ! this) of
             None \<Rightarrow> Returned None
           | Some p \<Rightarrow> Registry_lookupPlugin w p nm))"
proof -
  have "p < this" if "parent (heap w ! this) = Some p" for p
    using parents_belowD [OF assms that] .
  then show ?thesis
    by (subst Registry_lookupPlugin.simps) (simp split: option.splits property.splits)
qed

lemma lookupSchema_unfold:
  assumes "parents_below w" "this < length (heap w)"
  shows "Registry_lookupSchema w this nm =
     (case schema_at (heap w ! this) nm of
        Some (Registered d) \<Rightarrow> Returned (Some d)
      | Some (Inherited m) \<Rightarrow> ReturnedMember m
      | None \<Rightarrow>
          (case parent (heap w ! this) of
             None \<Rightarrow> Returned None
           | Some p \<Rightarrow> Registry_lookupSchema w p nm))"
proof -
  have "p < this" if "parent (heap w ! this) = Some p" for p
    using parents_belowD [OF assms that] .
  then show ?thesis
    by (subst Registry_lookupSchema.simps) (simp split: option.splits property.splits)
qed

lemma registerPluginProvider_twice:
  assumes "this < length (heap w)" and "nm \<noteq> ''__proto__''"
  shows "map_of (pluginsByName (heap (Registry_registerPluginProvider (Registry_registerPluginProvider w this nm p1) this nm p2) ! this)) nm =
           Some \<lparr>pb_name = provider_name p2, pb_cached = Suc (length (cells w)), pb_provider = p2\<rparr>"
    and "cells (Registry_registerPluginProvider (Registry_registerPluginProvider w this nm p1) this nm p2) = cells w @ [None, None]"
    and "calls (Registry_registerPluginProvider (Registry_registerPluginProvider w this nm p1) this nm p2) = calls w"
    and "logged (Registry_registerPluginProvider (Registry_registerPluginProvider w this nm p1) this nm p2) = logged w"
  using assms
  by (simp_all add: Registry_registerPluginProvider_def Let_def heap_modify
      length_heap_modify cells_modify calls_modify logged_modify update_conv')

lemma calls_call_initializer:
  "calls (fst (call_initializer w als c p)) = calls w @ [InitializerCalled c (init_tag p)]"
  by (simp add: call_initializer_def calls_fold_run_reg)

lemma await_Promise: "await p \<noteq> ReturnedMember m"
  by (cases p rule: await.cases) simp_all

lemma initializePlugin_fresh:
  assumes "plugin_at (heap w ! this) nm = Some (Registered b)" "cells w ! pb_cached b = None"
  shows "calls (fst (Registry_initializePlugin w als this nm)) =
           calls w @ [InitializerCalled (pb_cached b) (init_tag (pb_provider b))]"
proof -
  obtain w1 p where c: "call_initializer w als (pb_cached b) (pb_provider b) = (w1, p)"
    by (cases "call_initializer w als (pb_cached b) (pb_provider b)")
  have "calls w1 = calls w @ [InitializerCalled (pb_cached b) (init_tag (pb_provider b))]"
    using calls_call_initializer [of w als "pb_cached b" "pb_provider b"] c by simp
  with assms c show ?thesis
    by (simp add: Registry_initializePlugin_def initializer_def split: outcome.splits)
qed

subsection \<open>What lookups and caller scripts leave unchanged\<close>

lemma frame_lookupAction:
  "frame (getRegistryInstance w als) w (fst (Registry_lookupAction w als this k))"
proof (induction this arbitrary: w rule: less_induct)
  case (less this)
  define step where "step =
    (if get (actionsById (heap w ! this)) k = None \<and> truthy (parsePluginName k)
     then Registry_initializePlugin w als this (the (parsePluginName k))
     else (w, Returned None))"
  obtain w1 r where st: "step = (w1, r)"
    by (cases step)
  have fr: "frame (getRegistryInstance w als) w w1"
    using frame_initializePlugin [of w als this "the (parsePluginName k)"] st
    by (auto simp: step_def frame_refl split: if_splits)
  define rest where "rest =
     (case get (actionsById (heap w1 ! this)) k of
        Some (Registered a) \<Rightarrow> (w1, Returned (Some a))
      | Some (Inherited m) \<Rightarrow> (w1, ReturnedMember m)
      | None \<Rightarrow>
          (case parent (heap w1 ! this) of
             None \<Rightarrow> (w1, Returned None)
           | Some p \<Rightarrow>
               if p < this then Registry_lookupAction w1 als p k
               else (w1, Thrown CyclicChain)))"
  have unf: "Registry_lookupAction w als this k =
     (case r of Thrown e \<Rightarrow> (w1, Thrown e) | _ \<Rightarrow> rest)"
    by (subst Registry_lookupAction.simps)
      (simp only: Let_def step_def [symmetric] st prod.case rest_def)
  have fr_rest: "frame (getRegistryInstance w als) w (fst rest)"
  proof (cases "\<exists>p. get (actionsById (heap w1 ! this)) k = None \<and>
      parent (heap w1 ! this) = Some p \<and> p < this")
    case True
    then obtain p where h: "get (actionsById (heap w1 ! this)) k = None"
      "parent (heap w1 ! this) = Some p" "p < this"
      by blast
    have "frame (getRegistryInstance w1 als) w1 (fst (Registry_lookupAction w1 als p k))"
      using less.IH [OF h(3)] .
    then have "frame (getRegistryInstance w als) w1 (fst (Registry_lookupAction w1 als p k))"
      by (simp add: getRegistryInstance_frame [OF fr])
    with fr have "frame (getRegistryInstance w als) w (fst (Registry_lookupAction w1 als p k))"
      by (rule frame_trans)
    with h show ?thesis by (simp add: rest_def)
  next
    case False
    then have "fst rest = w1"
      by (auto simp: rest_def split: option.splits property.splits)
    with fr show ?thesis by simp
  qed
  show ?case
    by (cases r) (simp_all add: unf fr fr_rest)
qed

lemma frame_lookupTraceStore:
  "frame cur w (fst (Registry_lookupTraceStore w this env))"
proof (induction this arbitrary: w rule: less_induct)
  case (less this)
  obtain w1 r where l: "Registry_lookupOverlaidTraceStore w this env = (w1, r)"
    by (cases "Registry_lookupOverlaidTraceStore w this env")
  have fr: "frame cur w w1"
    using frame_overlaidTraceStore [of cur w this env] l by simp
  show ?case
  proof (cases "\<exists>p. r = None \<and> parent (heap w1 ! this) = Some p \<and> p < this")
    case True
    then obtain p where h: "r = None" "parent (heap w1 ! this) = Some p" "p < this"
      by blast
    have "frame cur w1 (fst (Registry_lookupTraceStore w1 p env))"
      using less.IH [OF h(3)] .
    with fr have "frame cur w (fst (Registry_lookupTraceStore w1 p env))"
      by (rule frame_trans)
    with l h show ?thesis
      by (subst Registry_lookupTraceStore.simps) simp
  next
    case False
    then have "fst (Registry_lookupTraceStore w this env) = w1"
      using l by (subst Registry_lookupTraceStore.simps)
        (auto split: outcome.splits option.splits property.splits)
    with fr show ?thesis by simp
  qed
qed

lemma frame_lookupFlowStateStore:
  "frame cur w (fst (Registry_lookupFlowStateStore w this env))"
proof (induction this arbitrary: w rule: less_induct)
  case (less this)
  obtain w1 r where l: "Registry_lookupOverlaidFlowStateStore w this env = (w1, r)"
    by (cases "Registry_lookupOverlaidFlowStateStore w this env")
  have fr: "frame cur w w1"
    using frame_overlaidFlowStateStore [of cur w this env] l by simp
  show ?case
  proof (cases "\<exists>p. r = None \<and> parent (heap w1 ! this) = Some p \<and> p < this")
    case True
    then obtain p where h: "r = None" "parent (heap w1 ! this) = Some p" "p < this"
      by blast
    have "frame cur w1 (fst (Registry_lookupFlowStateStore w1 p env))"
      using less.IH [OF h(3)] .
    with fr have "frame cur w (fst (Registry_lookupFlowStateStore w1 p env))"
      by (rule frame_trans)
    with l h show ?thesis
      by (subst Registry_lookupFlowStateStore.simps) simp
  next
    case False
    then have "fst (Registry_lookupFlowStateStore w this env) = w1"
      using l by (subst Registry_lookupFlowStateStore.simps)
        (auto split: outcome.splits option.splits property.splits)
    with fr show ?thesis by simp
  qed
qed

lemma frame_listActions:
  "frame (getRegistryInstance w als) w (fst (Registry_listActions w als this))"
proof (induction this arbitrary: w rule: less_induct)
  case (less this)
  obtain w1 r where i:
    "initializePlugins w als this (object_keys (pluginsByName (heap w ! this))) = (w1, r)"
    by (cases "initializePlugins w als this (object_keys (pluginsByName (heap w ! this)))")
  have fr: "frame (getRegistryInstance w als) w w1"
    using frame_initializePlugins [of w als this "object_keys (pluginsByName (heap w ! this))"] i
    by simp
  show ?case
  proof (cases "\<exists>p. (\<forall>e. r \<noteq> Thrown e) \<and> parent (heap w1 ! this) = Some p \<and> p < this")
    case True
    then obtain p where h: "\<forall>e. r \<noteq> Thrown e" "parent (heap w1 ! this) = Some p" "p < this"
      by blast
    have "frame (getRegistryInstance w1 als) w1 (fst (Registry_listActions w1 als p))"
      using less.IH [OF h(3)] .
    then have "frame (getRegistryInstance w als) w1 (fst (Registry_listActions w1 als p))"
      by (simp add: getRegistryInstance_frame [OF fr])
    with fr have "frame (getRegistryInstance w als) w (fst (Registry_listActions w1 als p))"
      by (rule frame_trans)
    moreover have "fst (Registry_listActions w als this) = fst (Registry_listActions w1 als p)"
      using i h by (subst Registry_listActions.simps) (simp split: prod.splits outcome.splits)
    ultimately show ?thesis by simp
  next
    case False
    then have "fst (Registry_listActions w als this) = w1"
      using i by (subst Registry_listActions.simps)
        (auto split: outcome.splits option.splits)
    with fr show ?thesis by simp
  qed
qed

lemma unchanged_below_refl: "unchanged_below N w w"
  by (simp add: unchanged_below_def)

lemma unchanged_below_trans:
  "unchanged_below N w w1 \<Longrightarrow> unchanged_below N w1 w2 \<Longrightarrow> unchanged_below N w w2"
  by (auto simp: unchanged_below_def)

lemma frame_unchanged_below: "frame c w w' \<Longrightarrow> N \<le> c \<Longrightarrow> unchanged_below N w w'"
  by (auto simp: frame_def unchanged_below_def)

lemma unchanged_below_alloc:
  "N \<le> length (heap w) \<Longrightarrow> unchanged_below N w (fst (alloc w p))"
  by (simp add: unchanged_below_def alloc_def nth_append)

lemma unchanged_below_global: "unchanged_below N w (w\<lparr>global_registry := g\<rparr>)"
  by (simp add: unchanged_below_def)

lemma fst_discard: "fst (discard r) = fst r"
  by (simp add: discard_def)

lemma unchanged_below_run:
  fixes N :: nat
  shows "als = Some cur \<Longrightarrow> N \<le> cur \<Longrightarrow> N \<le> length (heap w) \<Longrightarrow>
         unchanged_below N w (fst (run_cmd w als c))"
    and "als = Some cur \<Longrightarrow> N \<le> cur \<Longrightarrow> N \<le> length (heap w) \<Longrightarrow>
         unchanged_below N w (fst (run_cmds w als cs))"
proof (induction w als c and w als cs arbitrary: cur and cur rule: run_cmd_run_cmds.induct)
  case (1 w als r)
  then show ?case
    using frame_run_reg [of w als r]
    by (auto simp: getRegistryInstance_def intro: frame_unchanged_below)
next
  case (2 w als k)
  then show ?case
    using frame_lookupAction [of w als cur k]
    by (auto simp: getRegistryInstance_def lookupAction_def fst_discard
        intro: frame_unchanged_below)
next
  case (3 w als)
  then show ?case
    using frame_listActions [of w als cur]
    by (auto simp: getRegistryInstance_def listActions_def fst_discard
        intro: frame_unchanged_below)
next
  case (4 w als env)
  then show ?case
    using frame_lookupTraceStore [of cur w cur env]
    by (auto simp: getRegistryInstance_def lookupTraceStore_def fst_discard
        intro: frame_unchanged_below)
next
  case (5 w als env)
  then show ?case
    using frame_lookupFlowStateStore [of cur w cur env]
    by (auto simp: getRegistryInstance_def lookupFlowStateStore_def fst_discard
        intro: frame_unchanged_below)
next
  case (6 w als nm)
  then show ?case
    using frame_lookupFlowStateStore [of cur w cur nm]
    by (auto simp: getRegistryInstance_def lookupPlugin_def fst_discard
        intro: frame_unchanged_below)
next
  case (7 w als nm)
  then show ?case
    using frame_initializePlugin [of w als cur nm]
    by (auto simp: getRegistryInstance_def initializePlugin_def fst_discard
        intro: frame_unchanged_below)
next
  case (8 w als nm)
  show ?case by (simp add: unchanged_below_refl)
next
  case (9 w als)
  have "unchanged_below N w (fst (alloc w None))"
    using 9 by (intro unchanged_below_alloc)
  then show ?case
    by (auto simp: hardResetRegistryForTesting_def split: prod.splits
        intro: unchanged_below_trans unchanged_below_global)
next
  case (10 w als fn)
  obtain w1 registry where a: "withCurrent w als = (w1, registry)"
    by (cases "withCurrent w als")
  then have reg: "registry = length (heap w)" and w1: "w1 = fst (alloc w (Some cur))"
    using 10(2) by (auto simp: withCurrent_def alloc_def getRegistryInstance_def)
  have s1: "unchanged_below N w w1"
    unfolding w1 using 10(4) by (rule unchanged_below_alloc)
  have "N \<le> length (heap w1)"
    using 10(4) by (simp add: w1 alloc_def)
  then have "unchanged_below N w1 (fst (run_cmds w1 (Some registry) fn))"
    using "10.IH" [of "Some registry" registry w1] 10(4) reg by simp
  with s1 show ?case
    by (simp add: runInTempRegistry_def runInRegistry_def a) (rule unchanged_below_trans)
next
  case (11 w als fn)
  obtain w1 registry where a: "alloc w None = (w1, registry)"
    by (cases "alloc w None")
  then have reg: "registry = length (heap w)" and w1: "w1 = fst (alloc w None)"
    by (auto simp: alloc_def)
  have s1: "unchanged_below N w w1"
    unfolding w1 using 11(4) by (rule unchanged_below_alloc)
  have "N \<le> length (heap w1)"
    using 11(4) by (simp add: w1 alloc_def)
  then have "unchanged_below N w1 (fst (run_cmds w1 (Some registry) fn))"
    using "11.IH" [of "Some registry" registry w1] 11(4) reg by simp
  with s1 show ?case
    by (simp add: runInIsolatedRegistry_def runInRegistry_def a) (rule unchanged_below_trans)
next
  case (12 w als)
  show ?case by (simp add: unchanged_below_refl)
next
  case (13 w als c cs)
  obtain w1 r where c: "run_cmd w als c = (w1, r)"
    by (cases "run_cmd w als c")
  have s1: "unchanged_below N w w1"
    using "13.IH"(1) [OF "13.prems"] c by simp
  show ?case
  proof (cases r)
    case (Thrown e)
    with c s1 show ?thesis by simp
  next
    case (Returned u)
    have "N \<le> length (heap w1)"
      using s1 "13.prems"(3) by (simp add: unchanged_below_def)
    then have "unchanged_below N w1 (fst (run_cmds w1 als cs))"
      using "13.IH"(2) [OF c [symmetric] Returned "13.prems"(1,2)] by simp
    with s1 c Returned show ?thesis
      by simp (rule unchanged_below_trans)
  next
    case (ReturnedMember m)
    have "N \<le> length (heap w1)"
      using s1 "13.prems"(3) by (simp add: unchanged_below_def)
    then have "unchanged_below N w1 (fst (run_cmds w1 als cs))"
      using "13.IH"(3) [OF c [symmetric] ReturnedMember "13.prems"(1,2)] by simp
    with s1 c ReturnedMember show ?thesis
      by simp (rule unchanged_below_trans)
  qed
qed

subsection \<open>What a registration leaves unchanged\<close>

lemma cells_allocI:
  "(\<And>n b. n < length (heap w) \<Longrightarrow> b \<in> bindings (heap w ! n) \<Longrightarrow>
      pb_cached b < length (cells w)) \<Longrightarrow> cells_alloc w"
  by (simp add: cells_alloc_def)

lemma cells_allocD:
  "cells_alloc w \<Longrightarrow> n < length (heap w) \<Longrightarrow> b \<in> bindings (heap w ! n) \<Longrightarrow>
   pb_cached b < length (cells w)"
  by (simp add: cells_alloc_def)

lemma quietI:
  assumes "calls w' = calls w" and "length (heap w') = length (heap w)"
    and "\<And>n. traceStoresByEnvCache (heap w' ! n) = traceStoresByEnvCache (heap w ! n)"
    and "\<And>n. flowStateStoresByEnvCache (heap w' ! n) = flowStateStoresByEnvCache (heap w ! n)"
    and "\<exists>k. cells w' = cells w @ replicate k None"
    and "\<And>n env. traceStoresByEnv (heap w ! n) env \<noteq> None \<Longrightarrow>
           traceStoresByEnv (heap w' ! n) env \<noteq> None"
    and "cells_alloc w \<Longrightarrow> cells_alloc w'"
  shows "quiet w w'"
  unfolding quiet_def
proof (intro conjI)
  show "calls w' = calls w" by fact
  show "length (heap w') = length (heap w)" by fact
  show "\<forall>n. traceStoresByEnvCache (heap w' ! n) = traceStoresByEnvCache (heap w ! n) \<and>
      flowStateStoresByEnvCache (heap w' ! n) = flowStateStoresByEnvCache (heap w ! n)"
    using assms(3,4) by blast
  show "\<exists>k. cells w' = cells w @ replicate k None" by fact
  show "\<forall>n env. traceStoresByEnv (heap w ! n) env \<noteq> None \<longrightarrow>
      traceStoresByEnv (heap w' ! n) env \<noteq> None"
    using assms(6) by blast
  show "cells_alloc w \<longrightarrow> cells_alloc w'"
    by (rule impI) (rule assms(7))
qed

lemma ex_replicate_None: "\<exists>k. xs = xs @ replicate k None"
  by (rule exI [of _ 0]) simp

lemma quiet_refl: "quiet w w"
  by (rule quietI) (simp_all add: ex_replicate_None)

lemma quiet_calls: "quiet w w' \<Longrightarrow> calls w' = calls w"
  by (simp add: quiet_def)

lemma quiet_length: "quiet w w' \<Longrightarrow> length (heap w') = length (heap w)"
  by (simp add: quiet_def)

lemma quiet_traceCache:
  "quiet w w' \<Longrightarrow> traceStoresByEnvCache (heap w' ! n) = traceStoresByEnvCache (heap w ! n)"
  by (simp add: quiet_def)

lemma quiet_flowCache:
  "quiet w w' \<Longrightarrow>
   flowStateStoresByEnvCache (heap w' ! n) = flowStateStoresByEnvCache (heap w ! n)"
  by (simp add: quiet_def)

lemma quiet_cells: "quiet w w' \<Longrightarrow> \<exists>k. cells w' = cells w @ replicate k None"
  unfolding quiet_def by (elim conjE)

lemma quiet_bound:
  assumes "quiet w w'" and "traceStoresByEnv (heap w ! n) env \<noteq> None"
  shows "traceStoresByEnv (heap w' ! n) env \<noteq> None"
proof -
  have "\<forall>n env. traceStoresByEnv (heap w ! n) env \<noteq> None \<longrightarrow>
      traceStoresByEnv (heap w' ! n) env \<noteq> None"
    using assms(1) unfolding quiet_def by (elim conjE)
  with assms(2) show ?thesis by blast
qed

lemma quiet_alloc: "quiet w w' \<Longrightarrow> cells_alloc w \<Longrightarrow> cells_alloc w'"
  unfolding quiet_def by (elim conjE impE)

lemma quiet_trans:
  assumes "quiet w w1" "quiet w1 w2"
  shows "quiet w w2"
proof (rule quietI)
  show "calls w2 = calls w"
    using assms by (simp add: quiet_calls)
  show "length (heap w2) = length (heap w)"
    using assms by (simp add: quiet_length)
  show "traceStoresByEnvCache (heap w2 ! n) = traceStoresByEnvCache (heap w ! n)" for n
    using assms by (simp add: quiet_traceCache)
  show "flowStateStoresByEnvCache (heap w2 ! n) = flowStateStoresByEnvCache (heap w ! n)" for n
    using assms by (simp add: quiet_flowCache)
  show "\<exists>k. cells w2 = cells w @ replicate k None"
  proof -
    obtain k where k: "cells w1 = cells w @ replicate k None"
      using quiet_cells [OF assms(1)] by blast
    obtain j where j: "cells w2 = cells w1 @ replicate j None"
      using quiet_cells [OF assms(2)] by blast
    have "cells w2 = cells w @ replicate (k + j) None"
      by (simp add: k j replicate_add)
    then show ?thesis by (rule exI)
  qed
  show "traceStoresByEnv (heap w2 ! n) env \<noteq> None"
    if "traceStoresByEnv (heap w ! n) env \<noteq> None" for n env
    using quiet_bound [OF assms(2) quiet_bound [OF assms(1) that]] .
  show "cells_alloc w2" if "cells_alloc w"
    using quiet_alloc [OF assms(2) quiet_alloc [OF assms(1) that]] .
qed

lemma quiet_modify:
  assumes "\<And>r. traceStoresByEnvCache (f r) = traceStoresByEnvCache r"
    and "\<And>r. flowStateStoresByEnvCache (f r) = flowStateStoresByEnvCache r"
    and "\<And>r. bindings (f r) = bindings r"
    and "\<And>r env. traceStoresByEnv r env \<noteq> None \<Longrightarrow> traceStoresByEnv (f r) env \<noteq> None"
  shows "quiet w (modify n f w)"
proof -
  have keep: "traceStoresByEnv (heap (modify n f w) ! m) env \<noteq> None"
    if "traceStoresByEnv (heap w ! m) env \<noteq> None" for m env
    using that assms(4) [of "heap w ! n" env] by (auto simp: heap_modify)
  have plug: "bindings (heap (modify n f w) ! m) = bindings (heap w ! m)" for m
    by (simp add: heap_modify assms(3))
  have cache: "traceStoresByEnvCache (heap (modify n f w) ! m) =
        traceStoresByEnvCache (heap w ! m) \<and>
      flowStateStoresByEnvCache (heap (modify n f w) ! m) =
        flowStateStoresByEnvCache (heap w ! m)" for m
    by (simp add: heap_modify assms(1,2))
  have cells: "\<exists>k. cells (modify n f w) = cells w @ replicate k None"
    by (rule exI [of _ 0]) (simp add: cells_modify)
  show ?thesis
  proof (rule quietI)
    show "calls (modify n f w) = calls w" by (rule calls_modify)
    show "length (heap (modify n f w)) = length (heap w)" by (rule length_heap_modify)
    show "traceStoresByEnvCache (heap (modify n f w) ! m) = traceStoresByEnvCache (heap w ! m)"
      for m using cache by blast
    show "flowStateStoresByEnvCache (heap (modify n f w) ! m) =
        flowStateStoresByEnvCache (heap w ! m)"
      for m using cache by blast
    show "\<exists>k. cells (modify n f w) = cells w @ replicate k None" by (rule cells)
    show "traceStoresByEnv (heap (modify n f w) ! m) env \<noteq> None"
      if "traceStoresByEnv (heap w ! m) env \<noteq> None" for m env
      using that by (rule keep)
    show "cells_alloc (modify n f w)" if "cells_alloc w"
      using that unfolding cells_alloc_def plug length_heap_modify cells_modify .
  qed
qed

lemma quiet_logged: "quiet w (w\<lparr>logged := l\<rparr>)"
  by (rule quietI) (simp_all add: ex_replicate_None cells_alloc_def)

lemma quiet_cong:
  assumes "calls w2 = calls w1" "heap w2 = heap w1" "cells w2 = cells w1" "quiet w w1"
  shows "quiet w w2"
  using assms(4) unfolding quiet_def cells_alloc_def assms(1,2,3) .

lemma quiet_registerAction: "quiet w (Registry_registerAction w this ty a)"
proof -
  let ?f = "\<lambda>r. r\<lparr>actionsById := (actionsById r)(action_key ty a \<mapsto> a)\<rparr>"
  have h: "heap (Registry_registerAction w this ty a) = heap (modify this ?f w)"
    by (simp add: Registry_registerAction_def Let_def modify_def)
  have c: "calls (Registry_registerAction w this ty a) = calls (modify this ?f w)"
    by (simp add: Registry_registerAction_def Let_def modify_def)
  have d: "cells (Registry_registerAction w this ty a) = cells (modify this ?f w)"
    by (simp add: Registry_registerAction_def Let_def modify_def)
  have "quiet w (modify this ?f w)"
    by (rule quiet_modify) (simp_all add: bindings_def)
  with c h d show ?thesis
    by (rule quiet_cong)
qed

lemma set_update_subset: "set (AList.update k v al) \<subseteq> insert (k, v) (set al)"
proof (induction al)
  case Nil
  show ?case by simp
next
  case (Cons p ps)
  show ?case
  proof (cases "fst p = k")
    case True
    then show ?thesis by (simp add: subset_iff)
  next
    case False
    with Cons show ?thesis by (simp add: subset_iff) blast
  qed
qed

text \<open>A registration of a plugin adds one binding, whose variable is the new one.\<close>

lemma bindings_registerPluginProvider:
  assumes "b \<in> bindings (heap (Registry_registerPluginProvider w this nm p) ! n)"
  shows "b \<in> bindings (heap w ! n) \<or>
         b = \<lparr>pb_name = provider_name p, pb_cached = length (cells w), pb_provider = p\<rparr>"
proof -
  let ?b = "\<lparr>pb_name = provider_name p, pb_cached = length (cells w), pb_provider = p\<rparr>"
  let ?r = "heap w ! n"
  have "b \<in> bindings ?r \<or> b \<in> bindings (?r\<lparr>pluginsByName_proto := Some ?b\<rparr>) \<or>
      b \<in> bindings (?r\<lparr>pluginsByName := AList.update nm ?b (pluginsByName ?r)\<rparr>)"
    using assms
    by (auto simp: Registry_registerPluginProvider_def Let_def heap_modify
        split: if_splits)
  moreover have "b = ?b \<or> b \<in> bindings ?r"
    if "b \<in> bindings (?r\<lparr>pluginsByName := AList.update nm ?b (pluginsByName ?r)\<rparr>)"
    using that set_update_subset [of nm ?b "pluginsByName ?r"]
    by (auto simp: bindings_def)
  moreover have "b = ?b \<or> b \<in> bindings ?r"
    if "b \<in> bindings (?r\<lparr>pluginsByName_proto := Some ?b\<rparr>)"
    using that by (auto simp: bindings_def)
  ultimately show ?thesis by blast
qed

lemma quiet_registerPluginProvider: "quiet w (Registry_registerPluginProvider w this nm p)"
proof -
  let ?w' = "Registry_registerPluginProvider w this nm p"
  have c1: "calls ?w' = calls w"
    by (simp add: Registry_registerPluginProvider_def Let_def calls_modify)
  have c2: "length (heap ?w') = length (heap w)"
    by (simp add: Registry_registerPluginProvider_def Let_def length_heap_modify)
  have c3: "traceStoresByEnvCache (heap ?w' ! n) = traceStoresByEnvCache (heap w ! n) \<and>
      flowStateStoresByEnvCache (heap ?w' ! n) = flowStateStoresByEnvCache (heap w ! n)" for n
    by (simp add: Registry_registerPluginProvider_def Let_def heap_modify)
  have cells: "cells ?w' = cells w @ [None]"
    by (simp add: Registry_registerPluginProvider_def Let_def cells_modify)
  then have c4: "\<exists>k. cells ?w' = cells w @ replicate k None"
    by (intro exI [of _ 1]) simp
  have c5: "traceStoresByEnv (heap ?w' ! n) = traceStoresByEnv (heap w ! n)" for n
    by (simp add: Registry_registerPluginProvider_def Let_def heap_modify)
  have alloc: "cells_alloc ?w'" if h: "cells_alloc w"
  proof (rule cells_allocI)
    fix n b
    assume n: "n < length (heap ?w')" and b: "b \<in> bindings (heap ?w' ! n)"
    have n': "n < length (heap w)"
      using n c2 by simp
    from bindings_registerPluginProvider [OF b]
    show "pb_cached b < length (cells ?w')"
    proof
      assume "b \<in> bindings (heap w ! n)"
      with h n' have "pb_cached b < length (cells w)"
        by (rule cells_allocD)
      then show ?thesis by (simp add: cells)
    next
      assume "b = \<lparr>pb_name = provider_name p, pb_cached = length (cells w), pb_provider = p\<rparr>"
      then show ?thesis by (simp add: cells)
    qed
  qed
  show ?thesis
  proof (rule quietI)
    show "calls ?w' = calls w" by (rule c1)
    show "length (heap ?w') = length (heap w)" by (rule c2)
    show "traceStoresByEnvCache (heap ?w' ! n) = traceStoresByEnvCache (heap w ! n)" for n
      using c3 by blast
    show "flowStateStoresByEnvCache (heap ?w' ! n) = flowStateStoresByEnvCache (heap w ! n)"
      for n using c3 by blast
    show "\<exists>k. cells ?w' = cells w @ replicate k None" by (rule c4)
    show "traceStoresByEnv (heap ?w' ! n) env \<noteq> None"
      if "traceStoresByEnv (heap w ! n) env \<noteq> None" for n env
      using that unfolding c5 .
    show "cells_alloc ?w'" if "cells_alloc w"
      using that by (rule alloc)
  qed
qed

lemma quiet_run_reg: "quiet w (run_reg als r w)"
proof (cases r)
  case (RegisterAction ty a)
  then show ?thesis
    by (simp add: registerAction_def quiet_registerAction)
next
  case (RegisterTraceStore env p)
  then show ?thesis
    by (simp add: registerTraceStore_def Registry_registerTraceStore_def)
      (rule quiet_modify, simp_all add: bindings_def)
next
  case (RegisterFlowStateStore env p)
  then show ?thesis
    by (simp add: registerFlowStateStore_def Registry_registerFlowStateStore_def)
      (rule quiet_modify, simp_all add: bindings_def)
next
  case (RegisterPluginProvider nm p)
  then show ?thesis
    by (simp add: registerPluginProvider_def quiet_registerPluginProvider)
next
  case (RegisterSchema nm d)
  then show ?thesis
    by (simp add: registerSchema_def Registry_registerSchema_def)
      (rule quiet_modify, simp_all add: bindings_def)
qed

lemma quiet_fold_run_reg: "quiet w (fold (run_reg als) rs w)"
proof (induction rs arbitrary: w)
  case Nil
  show ?case by (simp add: quiet_refl)
next
  case (Cons r rs)
  have "quiet w (run_reg als r w)"
    by (rule quiet_run_reg)
  moreover have "quiet (run_reg als r w) (fold (run_reg als) rs (run_reg als r w))"
    by (rule Cons.IH)
  ultimately show ?case
    by (simp add: quiet_trans)
qed

subsection \<open>The memoization invariant\<close>

lemma memo_invI:
  assumes "\<And>n env. length (filter (is_trace_call n env) (calls w)) =
        (if n < length (heap w) \<and> traceStoresByEnvCache (heap w ! n) env \<noteq> None then 1 else 0)"
    and "\<And>n env. length (filter (is_flow_call n env) (calls w)) =
        (if n < length (heap w) \<and> flowStateStoresByEnvCache (heap w ! n) env \<noteq> None
         then 1 else 0)"
    and "\<And>c. length (filter (is_initializer_call c) (calls w)) =
        (if c < length (cells w) \<and> cells w ! c \<noteq> None then 1 else 0)"
    and "cells_alloc w"
  shows "memo_inv w"
  unfolding memo_inv_def
proof (intro conjI)
  show "\<forall>n env. length (filter (is_trace_call n env) (calls w)) =
        (if n < length (heap w) \<and> traceStoresByEnvCache (heap w ! n) env \<noteq> None then 1 else 0)"
    using assms(1) by blast
  show "\<forall>n env. length (filter (is_flow_call n env) (calls w)) =
        (if n < length (heap w) \<and> flowStateStoresByEnvCache (heap w ! n) env \<noteq> None
         then 1 else 0)"
    using assms(2) by blast
  show "\<forall>c. length (filter (is_initializer_call c) (calls w)) =
        (if c < length (cells w) \<and> cells w ! c \<noteq> None then 1 else 0)"
    using assms(3) by blast
  show "cells_alloc w"
    by (rule assms(4))
qed

lemma memo_inv_trace:
  assumes "memo_inv w"
  shows "length (filter (is_trace_call n env) (calls w)) =
        (if n < length (heap w) \<and> traceStoresByEnvCache (heap w ! n) env \<noteq> None then 1 else 0)"
proof -
  have "\<forall>n env. length (filter (is_trace_call n env) (calls w)) =
        (if n < length (heap w) \<and> traceStoresByEnvCache (heap w ! n) env \<noteq> None then 1 else 0)"
    using assms unfolding memo_inv_def by (elim conjE)
  then show ?thesis by blast
qed

lemma memo_inv_flow:
  assumes "memo_inv w"
  shows "length (filter (is_flow_call n env) (calls w)) =
        (if n < length (heap w) \<and> flowStateStoresByEnvCache (heap w ! n) env \<noteq> None
         then 1 else 0)"
proof -
  have "\<forall>n env. length (filter (is_flow_call n env) (calls w)) =
        (if n < length (heap w) \<and> flowStateStoresByEnvCache (heap w ! n) env \<noteq> None
         then 1 else 0)"
    using assms unfolding memo_inv_def by (elim conjE)
  then show ?thesis by blast
qed

lemma memo_inv_cells:
  assumes "memo_inv w"
  shows "length (filter (is_initializer_call c) (calls w)) =
        (if c < length (cells w) \<and> cells w ! c \<noteq> None then 1 else 0)"
proof -
  have "\<forall>c. length (filter (is_initializer_call c) (calls w)) =
        (if c < length (cells w) \<and> cells w ! c \<noteq> None then 1 else 0)"
    using assms unfolding memo_inv_def by (elim conjE)
  then show ?thesis by blast
qed

lemma memo_inv_alloc:
  assumes "memo_inv w"
  shows "cells_alloc w"
  using assms unfolding memo_inv_def by (elim conjE)

lemma memo_inv_init: "memo_inv init"
  by (rule memo_invI)
    (simp_all add: init_def new_Registry_def cells_alloc_def bindings_def cong: conj_cong)

lemma set_cells_append:
  "(c < length (xs @ replicate k None) \<and> (xs @ replicate k None) ! c \<noteq> None) =
   (c < length xs \<and> xs ! c \<noteq> None)"
  by (cases "c < length xs") (simp_all add: nth_append)

lemma memo_inv_quiet:
  assumes q: "quiet w w'" and m: "memo_inv w"
  shows "memo_inv w'"
proof (rule memo_invI)
  fix n env
  show "length (filter (is_trace_call n env) (calls w')) =
      (if n < length (heap w') \<and> traceStoresByEnvCache (heap w' ! n) env \<noteq> None then 1 else 0)"
    using memo_inv_trace [OF m, of n env]
    by (simp only: quiet_calls [OF q] quiet_length [OF q] quiet_traceCache [OF q])
  show "length (filter (is_flow_call n env) (calls w')) =
      (if n < length (heap w') \<and> flowStateStoresByEnvCache (heap w' ! n) env \<noteq> None
       then 1 else 0)"
    using memo_inv_flow [OF m, of n env]
    by (simp only: quiet_calls [OF q] quiet_length [OF q] quiet_flowCache [OF q])
next
  fix c
  obtain k where k: "cells w' = cells w @ replicate k None"
    using quiet_cells [OF q] by blast
  show "length (filter (is_initializer_call c) (calls w')) =
      (if c < length (cells w') \<and> cells w' ! c \<noteq> None then 1 else 0)"
    using memo_inv_cells [OF m, of c]
    by (simp only: quiet_calls [OF q] k set_cells_append)
next
  show "cells_alloc w'"
    using q memo_inv_alloc [OF m] by (rule quiet_alloc)
qed

lemma memo_inv_overlaidTraceStore:
  assumes m: "memo_inv w" and lt: "this < length (heap w)"
  shows "memo_inv (fst (Registry_lookupOverlaidTraceStore w this env))"
proof (cases rule: overlaidTraceStore_cases [of w this env])
  case (same r)
  with m show ?thesis by simp
next
  case (fresh provider)
  let ?p = "Promise (length (calls w)) (yields provider)"
  let ?w' = "modify this
      (\<lambda>r. r\<lparr>traceStoresByEnvCache := (traceStoresByEnvCache r)(env \<mapsto> ?p)\<rparr>)
      (w\<lparr>calls := calls w @ [TraceStoreProviderCalled this env (tag provider)]\<rparr>)"
  have eq: "fst (Registry_lookupOverlaidTraceStore w this env) = ?w'"
    by (simp add: overlaidTraceStore_fresh [OF fresh])
  have "memo_inv ?w'"
  proof (rule memo_invI)
    fix n e
    show "length (filter (is_trace_call n e) (calls ?w')) =
        (if n < length (heap ?w') \<and> traceStoresByEnvCache (heap ?w' ! n) e \<noteq> None
         then 1 else 0)"
      using memo_inv_trace [OF m, of n e] fresh(2) lt
      by (auto simp: calls_modify heap_modify length_heap_modify)
    show "length (filter (is_flow_call n e) (calls ?w')) =
        (if n < length (heap ?w') \<and> flowStateStoresByEnvCache (heap ?w' ! n) e \<noteq> None
         then 1 else 0)"
      using memo_inv_flow [OF m, of n e]
      by (auto simp: calls_modify heap_modify length_heap_modify)
  next
    fix c
    show "length (filter (is_initializer_call c) (calls ?w')) =
        (if c < length (cells ?w') \<and> cells ?w' ! c \<noteq> None then 1 else 0)"
      using memo_inv_cells [OF m, of c]
      by (simp add: calls_modify cells_modify)
  next
    show "cells_alloc ?w'"
      using memo_inv_alloc [OF m]
      by (simp add: cells_alloc_def bindings_def heap_modify length_heap_modify cells_modify)
  qed
  then show ?thesis by (simp only: eq)
qed

lemma memo_inv_overlaidFlowStateStore:
  assumes m: "memo_inv w" and lt: "this < length (heap w)"
  shows "memo_inv (fst (Registry_lookupOverlaidFlowStateStore w this env))"
proof (cases rule: overlaidFlowStateStore_cases [of w this env])
  case (same r)
  with m show ?thesis by simp
next
  case (fresh provider)
  let ?p = "Promise (length (calls w)) (yields provider)"
  let ?w' = "modify this
      (\<lambda>r. r\<lparr>flowStateStoresByEnvCache := (flowStateStoresByEnvCache r)(env \<mapsto> ?p)\<rparr>)
      (w\<lparr>calls := calls w @ [FlowStateStoreProviderCalled this env (tag provider)]\<rparr>)"
  have eq: "fst (Registry_lookupOverlaidFlowStateStore w this env) = ?w'"
    by (simp add: overlaidFlowStateStore_fresh [OF fresh])
  have "memo_inv ?w'"
  proof (rule memo_invI)
    fix n e
    show "length (filter (is_flow_call n e) (calls ?w')) =
        (if n < length (heap ?w') \<and> flowStateStoresByEnvCache (heap ?w' ! n) e \<noteq> None
         then 1 else 0)"
      using memo_inv_flow [OF m, of n e] fresh(2) lt
      by (auto simp: calls_modify heap_modify length_heap_modify)
    show "length (filter (is_trace_call n e) (calls ?w')) =
        (if n < length (heap ?w') \<and> traceStoresByEnvCache (heap ?w' ! n) e \<noteq> None
         then 1 else 0)"
      using memo_inv_trace [OF m, of n e]
      by (auto simp: calls_modify heap_modify length_heap_modify)
  next
    fix c
    show "length (filter (is_initializer_call c) (calls ?w')) =
        (if c < length (cells ?w') \<and> cells ?w' ! c \<noteq> None then 1 else 0)"
      using memo_inv_cells [OF m, of c]
      by (simp add: calls_modify cells_modify)
  next
    show "cells_alloc ?w'"
      using memo_inv_alloc [OF m]
      by (simp add: cells_alloc_def bindings_def heap_modify length_heap_modify cells_modify)
  qed
  then show ?thesis by (simp only: eq)
qed

lemma initializePlugin_unbound:
  "plugin_at (heap w ! this) nm = None \<Longrightarrow>
   Registry_initializePlugin w als this nm = (w, Returned None)"
  by (simp add: Registry_initializePlugin_def)

lemma initializePlugin_inherited:
  "plugin_at (heap w ! this) nm = Some (Inherited m) \<Longrightarrow>
   Registry_initializePlugin w als this nm = (w, Thrown TypeError)"
  by (simp add: Registry_initializePlugin_def)

lemma initializePlugin_cached:
  "plugin_at (heap w ! this) nm = Some (Registered b) \<Longrightarrow> cells w ! pb_cached b = Some p \<Longrightarrow>
   fst (Registry_initializePlugin w als this nm) = w"
  by (simp add: Registry_initializePlugin_def initializer_def split: outcome.splits)


text \<open>The three ways a call of \<open>initializePlugin\<close> goes.\<close>

lemma initializePlugin_cases [case_names same first]:
  obtains "fst (Registry_initializePlugin w als this nm) = w"
  | b where "plugin_at (heap w ! this) nm = Some (Registered b)" and "cells w ! pb_cached b = None"
proof (cases "plugin_at (heap w ! this) nm")
  case None
  then show ?thesis using that(1) by (simp add: initializePlugin_unbound)
next
  case (Some found)
  show ?thesis
  proof (cases found)
    case (Inherited m)
    with Some show ?thesis using that(1) by (simp add: initializePlugin_inherited)
  next
    case (Registered b)
    show ?thesis
    proof (cases "cells w ! pb_cached b")
      case None
      with Some Registered show ?thesis using that(2) by simp
    next
      case cached: (Some p)
      with Some Registered show ?thesis using that(1) by (simp add: initializePlugin_cached)
    qed
  qed
qed

lemma initializePlugin_first:
  "plugin_at (heap w ! this) nm = Some (Registered b) \<Longrightarrow> cells w ! pb_cached b = None \<Longrightarrow>
   fst (Registry_initializePlugin w als this nm) =
     (fold (run_reg als) (init_body (pb_provider b))
        (w\<lparr>calls := calls w @ [InitializerCalled (pb_cached b) (init_tag (pb_provider b))]\<rparr>))
     \<lparr>cells :=
        (cells (fold (run_reg als) (init_body (pb_provider b))
           (w\<lparr>calls := calls w @
               [InitializerCalled (pb_cached b) (init_tag (pb_provider b))]\<rparr>)))
        [pb_cached b := Some (Promise (length (calls w)) (init_settles (pb_provider b)))]\<rparr>"
  by (simp add: Registry_initializePlugin_def initializer_def call_initializer_def
      split: outcome.splits)

lemma memo_inv_initializePlugin:
  assumes m: "memo_inv w" and lt: "this < length (heap w)"
  shows "memo_inv (fst (Registry_initializePlugin w als this nm))"
proof (cases rule: initializePlugin_cases [of w als this nm])
  case same
  with m show ?thesis by simp
next
  case (first b)
  note Some = first(1) and None = first(2)
  have "b \<in> bindings (heap w ! this)"
    using Some by (rule plugin_at_bindings)
  with memo_inv_alloc [OF m] lt have c: "pb_cached b < length (cells w)"
    by (rule cells_allocD)
  show ?thesis
  proof -
    let ?c = "pb_cached b"
    let ?w1 = "w\<lparr>calls := calls w @ [InitializerCalled ?c (init_tag (pb_provider b))]\<rparr>"
    let ?w2 = "fold (run_reg als) (init_body (pb_provider b)) ?w1"
    let ?p = "Promise (length (calls w)) (init_settles (pb_provider b))"
    let ?w3 = "?w2\<lparr>cells := (cells ?w2)[?c := Some ?p]\<rparr>"
    have eq: "fst (Registry_initializePlugin w als this nm) = ?w3"
      using Some None by (rule initializePlugin_first)
    have q: "quiet ?w1 ?w2"
      by (rule quiet_fold_run_reg)
    obtain k where k: "cells ?w2 = cells w @ replicate k None"
      using quiet_cells [OF q] by auto
    have calls2: "calls ?w2 = calls w @ [InitializerCalled ?c (init_tag (pb_provider b))]"
      using quiet_calls [OF q] by simp
    have len2: "length (heap ?w2) = length (heap w)"
      using quiet_length [OF q] by simp
    have tc2: "traceStoresByEnvCache (heap ?w2 ! n) = traceStoresByEnvCache (heap w ! n)" for n
      using quiet_traceCache [OF q, of n] by simp
    have fc2: "flowStateStoresByEnvCache (heap ?w2 ! n) = flowStateStoresByEnvCache (heap w ! n)"
      for n
      using quiet_flowCache [OF q, of n] by simp
    have al1: "cells_alloc ?w1"
      using memo_inv_alloc [OF m] by (simp add: cells_alloc_def)
    have al2: "cells_alloc ?w2"
      using q al1 by (rule quiet_alloc)
    have "memo_inv ?w3"
    proof (rule memo_invI)
      fix n e
      show "length (filter (is_trace_call n e) (calls ?w3)) =
          (if n < length (heap ?w3) \<and> traceStoresByEnvCache (heap ?w3 ! n) e \<noteq> None
           then 1 else 0)"
        using memo_inv_trace [OF m, of n e] by (simp add: calls2 len2 tc2)
      show "length (filter (is_flow_call n e) (calls ?w3)) =
          (if n < length (heap ?w3) \<and> flowStateStoresByEnvCache (heap ?w3 ! n) e \<noteq> None
           then 1 else 0)"
        using memo_inv_flow [OF m, of n e] by (simp add: calls2 len2 fc2)
    next
      fix c'
      show "length (filter (is_initializer_call c') (calls ?w3)) =
          (if c' < length (cells ?w3) \<and> cells ?w3 ! c' \<noteq> None then 1 else 0)"
      proof (cases "c' = ?c")
        case True
        with memo_inv_cells [OF m, of ?c] None c show ?thesis
          by (simp add: calls2 k)
      next
        case False
        have "(c' < length (cells w @ replicate k None) \<and>
            (cells w @ replicate k None) ! c' \<noteq> None) =
            (c' < length (cells w) \<and> cells w ! c' \<noteq> None)"
          by (rule set_cells_append)
        with memo_inv_cells [OF m, of c'] False show ?thesis
          by (simp add: calls2 k)
      qed
    next
      show "cells_alloc ?w3"
        using al2 by (simp add: cells_alloc_def)
    qed
    then show ?thesis by (simp only: eq)
  qed
qed

lemma memo_inv_alloc_step:
  assumes m: "memo_inv w"
  shows "memo_inv (fst (alloc w p))"
proof (rule memo_invI)
  fix n e
  show "length (filter (is_trace_call n e) (calls (fst (alloc w p)))) =
      (if n < length (heap (fst (alloc w p))) \<and>
          traceStoresByEnvCache (heap (fst (alloc w p)) ! n) e \<noteq> None
       then 1 else 0)"
    using memo_inv_trace [OF m, of n e]
    by (cases "n < length (heap w)")
      (auto simp: alloc_def nth_append new_Registry_def less_Suc_eq)
  show "length (filter (is_flow_call n e) (calls (fst (alloc w p)))) =
      (if n < length (heap (fst (alloc w p))) \<and>
          flowStateStoresByEnvCache (heap (fst (alloc w p)) ! n) e \<noteq> None
       then 1 else 0)"
    using memo_inv_flow [OF m, of n e]
    by (cases "n < length (heap w)")
      (auto simp: alloc_def nth_append new_Registry_def less_Suc_eq)
next
  fix c
  show "length (filter (is_initializer_call c) (calls (fst (alloc w p)))) =
      (if c < length (cells (fst (alloc w p))) \<and> cells (fst (alloc w p)) ! c \<noteq> None
       then 1 else 0)"
    using memo_inv_cells [OF m, of c] by (simp add: alloc_def)
next
  show "cells_alloc (fst (alloc w p))"
    using memo_inv_alloc [OF m]
    by (auto simp: cells_alloc_def bindings_def alloc_def nth_append new_Registry_def
        less_Suc_eq)
qed

lemma memo_inv_global: "memo_inv w \<Longrightarrow> memo_inv (w\<lparr>global_registry := g\<rparr>)"
  by (simp add: memo_inv_def cells_alloc_def)

lemma memo_inv_step:
  assumes "memo_inv w" "seg_ok w s"
  shows "memo_inv (step w s)"
proof (cases s)
  case (CallRegister als r)
  with assms(1) quiet_run_reg [of w als r] show ?thesis
    by (simp add: memo_inv_quiet)
next
  case (CallLookupOverlaidTraceStore n env)
  with assms show ?thesis by (simp add: memo_inv_overlaidTraceStore)
next
  case (CallLookupOverlaidFlowStateStore n env)
  with assms show ?thesis by (simp add: memo_inv_overlaidFlowStateStore)
next
  case (CallInitializePlugin als n nm)
  with assms show ?thesis by (simp add: memo_inv_initializePlugin)
next
  case (CallNewRegistry p)
  with assms(1) show ?thesis by (simp add: memo_inv_alloc_step)
next
  case CallHardReset
  have "memo_inv (fst (alloc w None))"
    using assms(1) by (rule memo_inv_alloc_step)
  then have "memo_inv (hardResetRegistryForTesting w)"
    by (cases "alloc w None") (simp add: hardResetRegistryForTesting_def memo_inv_global)
  with CallHardReset show ?thesis
    by simp
qed

lemma memo_inv_run:
  "memo_inv w \<Longrightarrow> run_segments w ss = Some w' \<Longrightarrow> memo_inv w'"
proof (induction ss arbitrary: w)
  case Nil
  then show ?case by simp
next
  case (Cons s ss)
  from Cons.prems(2) have ok: "seg_ok w s" and rest: "run_segments (step w s) ss = Some w'"
    by (simp_all split: if_splits)
  from Cons.prems(1) ok have "memo_inv (step w s)"
    by (rule memo_inv_step)
  then show ?case using rest by (rule Cons.IH)
qed

subsection \<open>A populated cache slot stays\<close>

lemma slot_quiet: "quiet w w' \<Longrightarrow> slot w n env pr \<Longrightarrow> slot w' n env pr"
  unfolding slot_def
  by (simp add: quiet_length quiet_traceCache quiet_bound)

lemma slot_heap: "heap w' = heap w \<Longrightarrow> slot w' n env pr = slot w n env pr"
  by (simp add: slot_def)

lemma slot_overlaidTraceStore:
  assumes "slot w n env pr"
  shows "slot (fst (Registry_lookupOverlaidTraceStore w m e)) n env pr"
proof (cases rule: overlaidTraceStore_cases [of w m e])
  case (same r)
  with assms show ?thesis by simp
next
  case (fresh provider)
  then have "\<not> (m = n \<and> e = env)"
    using assms by (auto simp: slot_def)
  with assms show ?thesis
    by (auto simp: overlaidTraceStore_fresh [OF fresh] slot_def heap_modify
        length_heap_modify)
qed

lemma slot_overlaidFlowStateStore:
  assumes "slot w n env pr"
  shows "slot (fst (Registry_lookupOverlaidFlowStateStore w m e)) n env pr"
proof (cases rule: overlaidFlowStateStore_cases [of w m e])
  case (same r)
  with assms show ?thesis by simp
next
  case (fresh provider)
  with assms show ?thesis
    by (auto simp: overlaidFlowStateStore_fresh [OF fresh] slot_def heap_modify
        length_heap_modify)
qed

lemma slot_initializePlugin:
  assumes "slot w n env pr"
  shows "slot (fst (Registry_initializePlugin w als m nm)) n env pr"
proof (cases rule: initializePlugin_cases [of w als m nm])
  case same
  with assms show ?thesis by simp
next
  case (first b)
  let ?w1 = "w\<lparr>calls := calls w @ [InitializerCalled (pb_cached b) (init_tag (pb_provider b))]\<rparr>"
  let ?w2 = "fold (run_reg als) (init_body (pb_provider b)) ?w1"
  have "slot ?w1 n env pr"
    using assms by (simp add: slot_def)
  with quiet_fold_run_reg [of ?w1 als "init_body (pb_provider b)"] have "slot ?w2 n env pr"
    by (rule slot_quiet)
  then show ?thesis
    by (simp add: initializePlugin_first [OF first] slot_def)
qed

lemma slot_alloc: "slot w n env pr \<Longrightarrow> slot (fst (alloc w p)) n env pr"
  by (simp add: slot_def alloc_def nth_append)

lemma slot_step:
  assumes "slot w n env pr"
  shows "slot (step w s) n env pr"
proof (cases s)
  case (CallRegister als r)
  with assms quiet_run_reg [of w als r] show ?thesis
    by (simp add: slot_quiet)
next
  case (CallLookupOverlaidTraceStore m e)
  with assms show ?thesis by (simp add: slot_overlaidTraceStore)
next
  case (CallLookupOverlaidFlowStateStore m e)
  with assms show ?thesis by (simp add: slot_overlaidFlowStateStore)
next
  case (CallInitializePlugin als m nm)
  with assms show ?thesis by (simp add: slot_initializePlugin)
next
  case (CallNewRegistry p)
  with assms show ?thesis by (simp add: slot_alloc)
next
  case CallHardReset
  have "slot (fst (alloc w None)) n env pr"
    using assms by (rule slot_alloc)
  then have "slot (hardResetRegistryForTesting w) n env pr"
    by (cases "alloc w None") (simp add: hardResetRegistryForTesting_def slot_def)
  with CallHardReset show ?thesis by simp
qed

lemma slot_run: "slot w n env pr \<Longrightarrow> run_segments w ss = Some w' \<Longrightarrow> slot w' n env pr"
proof (induction ss arbitrary: w)
  case Nil
  then show ?case by simp
next
  case (Cons s ss)
  from Cons.prems(2) have rest: "run_segments (step w s) ss = Some w'"
    by (simp split: if_splits)
  from Cons.prems(1) have "slot (step w s) n env pr"
    by (rule slot_step)
  then show ?case using rest by (rule Cons.IH)
qed

lemma slot_lookup:
  assumes "slot w n env pr"
  shows "Registry_lookupOverlaidTraceStore w n env = (w, Some (Registered pr))"
proof -
  from assms obtain provider where "traceStoresByEnv (heap w ! n) env = Some provider"
    by (auto simp: slot_def)
  then have "traceStore_at (heap w ! n) env = Some (Registered provider)"
    by (rule traceStore_at_own)
  moreover from assms have "traceStoresByEnvCache (heap w ! n) env = Some pr"
    by (simp add: slot_def)
  ultimately show ?thesis by (rule overlaidTraceStore_cached)
qed

lemma slot_first:
  assumes "n < length (heap w)" "traceStoresByEnv (heap w ! n) env = Some provider"
    "traceStoresByEnvCache (heap w ! n) env = None" "env \<notin> set Object_prototype_names"
  shows "slot (fst (Registry_lookupOverlaidTraceStore w n env)) n env
      (Promise (length (calls w)) (yields provider))"
  using assms
  by (simp add: overlaidTraceStore_fresh [OF traceStore_at_own [OF assms(2)] assms(3,4)]
      slot_def heap_modify length_heap_modify)

subsection \<open>Listing initializes the plugins of the node\<close>

lemma growsI:
  assumes "length (cells w) \<le> length (cells w')"
    and "\<And>c. c < length (cells w) \<Longrightarrow> cells w ! c \<noteq> None \<Longrightarrow> cells w' ! c = cells w ! c"
    and "\<And>n nm b. map_of (pluginsByName (heap w' ! n)) nm = Some b \<Longrightarrow>
           pb_cached b < length (cells w) \<Longrightarrow> map_of (pluginsByName (heap w ! n)) nm = Some b"
  shows "grows w w'"
  unfolding grows_def using assms by blast

lemma grows_length: "grows w w' \<Longrightarrow> length (cells w) \<le> length (cells w')"
  by (simp add: grows_def)

lemma grows_cell:
  assumes "grows w w'" and "c < length (cells w)" and "cells w ! c \<noteq> None"
  shows "cells w' ! c = cells w ! c"
proof -
  have "\<forall>c<length (cells w). cells w ! c \<noteq> None \<longrightarrow> cells w' ! c = cells w ! c"
    using assms(1) unfolding grows_def by (elim conjE)
  with assms(2,3) show ?thesis by blast
qed

lemma grows_binding:
  assumes "grows w w'" and "map_of (pluginsByName (heap w' ! n)) nm = Some b"
    and "pb_cached b < length (cells w)"
  shows "map_of (pluginsByName (heap w ! n)) nm = Some b"
proof -
  have "\<forall>n nm b. map_of (pluginsByName (heap w' ! n)) nm = Some b \<longrightarrow>
      pb_cached b < length (cells w) \<longrightarrow> map_of (pluginsByName (heap w ! n)) nm = Some b"
    using assms(1) unfolding grows_def by (elim conjE)
  with assms(2,3) show ?thesis by blast
qed

lemma grows_refl: "grows w w"
  by (rule growsI) simp_all

lemma grows_trans:
  assumes "grows w w1" and "grows w1 w2"
  shows "grows w w2"
proof (rule growsI)
  show "length (cells w) \<le> length (cells w2)"
    using grows_length [OF assms(1)] grows_length [OF assms(2)] by simp
next
  fix c
  assume c: "c < length (cells w)" and s: "cells w ! c \<noteq> None"
  have one: "cells w1 ! c = cells w ! c"
    using assms(1) c s by (rule grows_cell)
  have "c < length (cells w1)"
    using c grows_length [OF assms(1)] by simp
  moreover have "cells w1 ! c \<noteq> None"
    using one s by simp
  ultimately have "cells w2 ! c = cells w1 ! c"
    by (rule grows_cell [OF assms(2)])
  with one show "cells w2 ! c = cells w ! c"
    by simp
next
  fix n nm b
  assume b: "map_of (pluginsByName (heap w2 ! n)) nm = Some b"
    and c: "pb_cached b < length (cells w)"
  have "pb_cached b < length (cells w1)"
    using c grows_length [OF assms(1)] by simp
  with assms(2) b have "map_of (pluginsByName (heap w1 ! n)) nm = Some b"
    by (rule grows_binding)
  with assms(1) show "map_of (pluginsByName (heap w ! n)) nm = Some b"
    using c by (rule grows_binding)
qed

lemma grows_same_tables:
  assumes "cells w' = cells w" and "\<And>n. pluginsByName (heap w' ! n) = pluginsByName (heap w ! n)"
  shows "grows w w'"
  by (rule growsI) (simp_all add: assms)

lemma grows_modify:
  assumes "\<And>r. pluginsByName (f r) = pluginsByName r"
  shows "grows w (modify n f w)"
  by (rule grows_same_tables) (simp_all add: cells_modify heap_modify assms)

lemma grows_registerAction: "grows w (Registry_registerAction w this ty a)"
  by (rule grows_same_tables)
    (simp_all add: Registry_registerAction_def Let_def cells_modify heap_modify)

lemma grows_registerPluginProvider: "grows w (Registry_registerPluginProvider w this nm p)"
proof (rule growsI)
  let ?w' = "Registry_registerPluginProvider w this nm p"
  have cells: "cells ?w' = cells w @ [None]"
    by (simp add: Registry_registerPluginProvider_def Let_def cells_modify)
  show "length (cells w) \<le> length (cells ?w')"
    by (simp add: cells)
  show "cells ?w' ! c = cells w ! c" if "c < length (cells w)" for c
    using that by (simp add: cells nth_append)
  fix n nm' b
  assume b: "map_of (pluginsByName (heap ?w' ! n)) nm' = Some b"
    and c: "pb_cached b < length (cells w)"
  show "map_of (pluginsByName (heap w ! n)) nm' = Some b"
    using b c
    by (auto simp: Registry_registerPluginProvider_def Let_def heap_modify update_conv'
        split: if_splits)
qed

lemma grows_run_reg: "grows w (run_reg als r w)"
proof (cases r)
  case (RegisterAction ty a)
  then show ?thesis
    by (simp add: registerAction_def grows_registerAction)
next
  case (RegisterTraceStore env p)
  then show ?thesis
    by (simp add: registerTraceStore_def Registry_registerTraceStore_def)
      (rule grows_modify, simp)
next
  case (RegisterFlowStateStore env p)
  then show ?thesis
    by (simp add: registerFlowStateStore_def Registry_registerFlowStateStore_def)
      (rule grows_modify, simp)
next
  case (RegisterPluginProvider nm p)
  then show ?thesis
    by (simp add: registerPluginProvider_def grows_registerPluginProvider)
next
  case (RegisterSchema nm d)
  then show ?thesis
    by (simp add: registerSchema_def Registry_registerSchema_def)
      (rule grows_modify, simp)
qed

lemma grows_fold_run_reg: "grows w (fold (run_reg als) rs w)"
proof (induction rs arbitrary: w)
  case Nil
  show ?case by (simp add: grows_refl)
next
  case (Cons r rs)
  have "grows w (run_reg als r w)"
    by (rule grows_run_reg)
  moreover have "grows (run_reg als r w) (fold (run_reg als) rs (run_reg als r w))"
    by (rule Cons.IH)
  ultimately show ?case
    by (simp add: grows_trans)
qed

lemma grows_initializePlugin: "grows w (fst (Registry_initializePlugin w als this nm))"
proof (cases rule: initializePlugin_cases [of w als this nm])
  case same
  then show ?thesis by (simp add: grows_refl)
next
  case (first b)
  let ?c = "pb_cached b"
  let ?w1 = "w\<lparr>calls := calls w @ [InitializerCalled ?c (init_tag (pb_provider b))]\<rparr>"
  let ?w2 = "fold (run_reg als) (init_body (pb_provider b)) ?w1"
  let ?p = "Promise (length (calls w)) (init_settles (pb_provider b))"
  let ?w3 = "?w2\<lparr>cells := (cells ?w2)[?c := Some ?p]\<rparr>"
  have eq: "fst (Registry_initializePlugin w als this nm) = ?w3"
    using first by (rule initializePlugin_first)
  have "grows w ?w1"
    by (rule grows_same_tables) simp_all
  moreover have "grows ?w1 ?w2"
    by (rule grows_fold_run_reg)
  ultimately have g: "grows w ?w2"
    by (rule grows_trans)
  have "grows w ?w3"
  proof (rule growsI)
    show "length (cells w) \<le> length (cells ?w3)"
      using grows_length [OF g] by simp
  next
    fix c
    assume c: "c < length (cells w)" and s: "cells w ! c \<noteq> None"
    then have "c \<noteq> ?c"
      using first(2) by auto
    then have "cells ?w3 ! c = cells ?w2 ! c"
      by simp
    also have "\<dots> = cells w ! c"
      using g c s by (rule grows_cell)
    finally show "cells ?w3 ! c = cells w ! c" .
  next
    fix n nm' b'
    assume "map_of (pluginsByName (heap ?w3 ! n)) nm' = Some b'"
      and c: "pb_cached b' < length (cells w)"
    then have "map_of (pluginsByName (heap ?w2 ! n)) nm' = Some b'"
      by simp
    with g show "map_of (pluginsByName (heap w ! n)) nm' = Some b'"
      using c by (rule grows_binding)
  qed
  then show ?thesis by (simp only: eq)
qed

text \<open>After a call of \<open>initializePlugin\<close> for a bound name the closure variable is set.\<close>

lemma initializePlugin_sets_cell:
  assumes "map_of (pluginsByName (heap w ! this)) nm = Some b"
    and "pb_cached b < length (cells w)"
  shows "cells (fst (Registry_initializePlugin w als this nm)) ! pb_cached b \<noteq> None"
proof (cases "cells w ! pb_cached b")
  case (Some p)
  with initializePlugin_cached [OF plugin_at_own [OF assms(1)] Some, of als] show ?thesis
    by simp
next
  case None
  let ?w1 = "w\<lparr>calls := calls w @
      [InitializerCalled (pb_cached b) (init_tag (pb_provider b))]\<rparr>"
  let ?w2 = "fold (run_reg als) (init_body (pb_provider b)) ?w1"
  have "grows ?w1 ?w2"
    by (rule grows_fold_run_reg)
  from grows_length [OF this] assms(2) have "pb_cached b < length (cells ?w2)"
    by simp
  then show ?thesis
    by (simp add: initializePlugin_first [OF plugin_at_own [OF assms(1)] None])
qed

lemma grows_initializePlugins: "grows w (fst (initializePlugins w als this names))"
proof (induction names arbitrary: w)
  case Nil
  show ?case by (simp add: grows_refl)
next
  case (Cons nm names)
  obtain w1 r where i: "Registry_initializePlugin w als this nm = (w1, r)"
    by (cases "Registry_initializePlugin w als this nm")
  have a: "grows w w1"
    using grows_initializePlugin [of w als this nm] i by simp
  show ?case
  proof (cases "\<exists>e. r = Thrown e")
    case True
    with i a show ?thesis by (auto simp: initializePlugins_Thrown simp del: initializePlugins.simps)
  next
    case False
    have "grows w1 (fst (initializePlugins w1 als this names))"
      by (rule Cons.IH)
    with a have "grows w (fst (initializePlugins w1 als this names))"
      by (rule grows_trans)
    with False show ?thesis
      by (simp add: initializePlugins_next [OF i] del: initializePlugins.simps)
  qed
qed

lemma grows_listActions: "grows w (fst (Registry_listActions w als this))"
proof (induction this arbitrary: w rule: less_induct)
  case (less this)
  obtain w1 r where i:
    "initializePlugins w als this (object_keys (pluginsByName (heap w ! this))) = (w1, r)"
    by (cases "initializePlugins w als this (object_keys (pluginsByName (heap w ! this)))")
  have g: "grows w w1"
    using grows_initializePlugins [of w als this "object_keys (pluginsByName (heap w ! this))"] i
    by simp
  show ?case
  proof (cases "\<exists>p. (\<forall>e. r \<noteq> Thrown e) \<and> parent (heap w1 ! this) = Some p \<and> p < this")
    case True
    then obtain p where h: "\<forall>e. r \<noteq> Thrown e" "parent (heap w1 ! this) = Some p" "p < this"
      by blast
    have "grows w1 (fst (Registry_listActions w1 als p))"
      using less.IH [OF h(3)] .
    with g have "grows w (fst (Registry_listActions w1 als p))"
      by (rule grows_trans)
    moreover have "fst (Registry_listActions w als this) = fst (Registry_listActions w1 als p)"
      using i h by (subst Registry_listActions.simps) (simp split: prod.splits outcome.splits)
    ultimately show ?thesis by simp
  next
    case False
    then have "fst (Registry_listActions w als this) = w1"
      using i by (subst Registry_listActions.simps)
        (auto split: outcome.splits option.splits)
    with g show ?thesis by simp
  qed
qed

text \<open>
  The loop of \<open>listActions\<close> reaches every name: when it has run to its end without an
  error, the closure variable of every binding that is still in the table under one of
  the names, and was made before the loop began, is set, so its initializer has been
  called.
\<close>

lemma initializePlugins_initializes:
  assumes "snd (initializePlugins w als this names) = Returned ()"
    and "nm \<in> set names"
    and "map_of (pluginsByName (heap (fst (initializePlugins w als this names)) ! this)) nm =
           Some b"
    and "pb_cached b < length (cells w)"
  shows "cells (fst (initializePlugins w als this names)) ! pb_cached b \<noteq> None"
  using assms
proof (induction names arbitrary: w)
  case Nil
  then show ?case by simp
next
  case (Cons n names)
  obtain w1 r where i: "Registry_initializePlugin w als this n = (w1, r)"
    by (cases "Registry_initializePlugin w als this n")
  have nt: "\<forall>e. r \<noteq> Thrown e"
    using Cons.prems(1) i by (cases r) auto
  note step = initializePlugins_next [OF i nt, of names]
  let ?w' = "fst (initializePlugins w1 als this names)"
  have g1: "grows w w1"
    using grows_initializePlugin [of w als this n] i by simp
  have g2: "grows w1 ?w'"
    by (rule grows_initializePlugins)
  have c1: "pb_cached b < length (cells w1)"
    using Cons.prems(4) grows_length [OF g1] by simp
  have b': "map_of (pluginsByName (heap ?w' ! this)) nm = Some b"
    using Cons.prems(3) by (simp only: step)
  have b1: "map_of (pluginsByName (heap w1 ! this)) nm = Some b"
    using g2 b' c1 by (rule grows_binding)
  have "cells ?w' ! pb_cached b \<noteq> None"
  proof (cases "nm \<in> set names")
    case True
    have "snd (initializePlugins w1 als this names) = Returned ()"
      using Cons.prems(1) by (simp only: step)
    then show ?thesis
      using True b' c1 by (rule Cons.IH)
  next
    case False
    then have nm: "nm = n"
      using Cons.prems(2) by simp
    have b0: "map_of (pluginsByName (heap w ! this)) n = Some b"
      using g1 b1 Cons.prems(4) unfolding nm by (rule grows_binding)
    have "cells w1 ! pb_cached b \<noteq> None"
      using initializePlugin_sets_cell [OF b0 Cons.prems(4), of als] i by simp
    with grows_cell [OF g2 c1] show ?thesis
      by simp
  qed
  then show ?case unfolding step .
qed

lemma listActions_initializes:
  assumes "parents_below w" and "this < length (heap w)"
    and "Registry_listActions w als this = (w', Returned m)"
    and "map_of (pluginsByName (heap w ! this)) nm = Some b"
    and "map_of (pluginsByName (heap w' ! this)) nm = Some b"
    and "pb_cached b < length (cells w)"
  shows "cells w' ! pb_cached b \<noteq> None"
proof -
  let ?names = "object_keys (pluginsByName (heap w ! this))"
  obtain w1 r where i: "initializePlugins w als this ?names = (w1, r)"
    by (cases "initializePlugins w als this ?names")
  have nt: "\<forall>e. r \<noteq> Thrown e"
    using assms(3) i unfolding listActions_unfold [OF assms(1,2)]
    by (auto split: outcome.splits)
  then have r: "snd (initializePlugins w als this ?names) = Returned ()"
    using initializePlugins_result [of w als this ?names] i by auto
  have g: "grows w1 w'"
  proof (cases "parent (heap w ! this)")
    case None
    then have "w' = w1"
      using assms(3) i unfolding listActions_unfold [OF assms(1,2)]
      by (auto split: outcome.splits)
    then show ?thesis by (simp add: grows_refl)
  next
    case (Some p)
    obtain w2 r2 where l: "Registry_listActions w1 als p = (w2, r2)"
      by (cases "Registry_listActions w1 als p")
    have "w' = w2"
      using assms(3) i Some l unfolding listActions_unfold [OF assms(1,2)]
      by (auto split: outcome.splits)
    with grows_listActions [of w1 als p] l show ?thesis by simp
  qed
  have g1: "grows w w1"
    using grows_initializePlugins [of w als this ?names] i by simp
  have c1: "pb_cached b < length (cells w1)"
    using assms(6) grows_length [OF g1] by simp
  have b1: "map_of (pluginsByName (heap w1 ! this)) nm = Some b"
    using g assms(5) c1 by (rule grows_binding)
  have "nm \<in> set ?names"
    using assms(4) by (auto simp: set_object_keys dest!: map_of_SomeD intro: rev_image_eqI)
  with r have "cells (fst (initializePlugins w als this ?names)) ! pb_cached b \<noteq> None"
    using b1 assms(6) i by (intro initializePlugins_initializes) simp_all
  then have "cells w1 ! pb_cached b \<noteq> None"
    using i by simp
  with grows_cell [OF g c1] show ?thesis
    by simp
qed

section \<open>Properties of the registry\<close>




text \<open>
  C2. \<open>Registry.lookupPlugin\<close> is the synchronous local-then-parent lookup in the plugin
  table (\<open>lookupPlugin_unfold\<close>). The module-level \<open>lookupPlugin\<close> is not: it calls
  \<open>lookupFlowStateStore\<close>. With a plugin registered as \<open>myplugin\<close> and no flow state store
  of that name, the method returns the binding and the module-level function returns a
  promise of \<open>undefined\<close>.
\<close>

theorem C2_lookupPlugin_module_level:
  "Registry_lookupPlugin example_world 1 ''myplugin'' =
     Returned (Some \<lparr>pb_name = ''myplugin'', pb_cached = 0, pb_provider = example_plugin\<rparr>) \<and>
   snd (lookupPlugin example_world (Some 1) ''myplugin'') = Returned None"
  by code_simp

text \<open>
  C3 (as amended). In every state reached from the initial one by any sequence of
  segments, hence under every interleaving of asynchronous callers: for every node and
  environment name the trace store providers registered there have been called at most
  once in all, and so have the flow state store providers; and for every closure
  variable \<open>cached\<close>, that is for every single call of \<open>registerPluginProvider\<close>, the
  wrapped initializer has been called at most once. The cache slot is written in the
  segment that calls the provider: when a first \<open>lookupTraceStore\<close> has run its first
  segment on an uncached environment whose name is not the name of a member of
  \<^verbatim>\<open>Object.prototype\<close>, every later first segment of a lookup for it, whatever ran in
  between, returns the same promise and calls nothing, so the provider has been called
  exactly once.
\<close>

theorem C3_memoized_construction:
  assumes "run_segments init ss = Some w"
  shows
    "length (filter (is_trace_call n env) (calls w)) \<le> 1 \<and>
     length (filter (is_flow_call n env) (calls w)) \<le> 1 \<and>
     length (filter (is_initializer_call c) (calls w)) \<le> 1 \<and>
     (\<forall>provider ss' w'.
        n < length (heap w) \<longrightarrow> traceStoresByEnv (heap w ! n) env = Some provider \<longrightarrow>
        traceStoresByEnvCache (heap w ! n) env = None \<longrightarrow>
        env \<notin> set Object_prototype_names \<longrightarrow>
        run_segments (fst (Registry_lookupOverlaidTraceStore w n env)) ss' = Some w' \<longrightarrow>
          snd (Registry_lookupOverlaidTraceStore w n env) =
            Some (Registered (Promise (length (calls w)) (yields provider))) \<and>
          Registry_lookupOverlaidTraceStore w' n env =
            (w', Some (Registered (Promise (length (calls w)) (yields provider)))) \<and>
          length (filter (is_trace_call n env) (calls w')) = 1)"
proof -
  have m: "memo_inv w"
    using memo_inv_init assms by (rule memo_inv_run)
  have t: "length (filter (is_trace_call n env) (calls w)) \<le> 1"
    by (simp add: memo_inv_trace [OF m])
  have f: "length (filter (is_flow_call n env) (calls w)) \<le> 1"
    by (simp add: memo_inv_flow [OF m])
  have i: "length (filter (is_initializer_call c) (calls w)) \<le> 1"
    by (simp add: memo_inv_cells [OF m])
  have single: "snd (Registry_lookupOverlaidTraceStore w n env) =
        Some (Registered (Promise (length (calls w)) (yields provider))) \<and>
      Registry_lookupOverlaidTraceStore w' n env =
        (w', Some (Registered (Promise (length (calls w)) (yields provider)))) \<and>
      length (filter (is_trace_call n env) (calls w')) = 1"
    if lt: "n < length (heap w)" and b: "traceStoresByEnv (heap w ! n) env = Some provider"
      and c: "traceStoresByEnvCache (heap w ! n) env = None"
      and np: "env \<notin> set Object_prototype_names"
      and r: "run_segments (fst (Registry_lookupOverlaidTraceStore w n env)) ss' = Some w'"
    for provider ss' w'
  proof -
    let ?p = "Promise (length (calls w)) (yields provider)"
    let ?w1 = "fst (Registry_lookupOverlaidTraceStore w n env)"
    have first: "snd (Registry_lookupOverlaidTraceStore w n env) = Some (Registered ?p)"
      by (simp add: overlaidTraceStore_fresh [OF traceStore_at_own [OF b] c np])
    have "slot ?w1 n env ?p"
      using lt b c np by (rule slot_first)
    then have s: "slot w' n env ?p"
      using r by (rule slot_run)
    have "memo_inv ?w1"
      using m lt by (rule memo_inv_overlaidTraceStore)
    then have "memo_inv w'"
      using r by (rule memo_inv_run)
    then have "length (filter (is_trace_call n env) (calls w')) = 1"
      using s by (simp add: memo_inv_trace slot_def)
    with first slot_lookup [OF s] show ?thesis by simp
  qed
  from t f i single show ?thesis by blast
qed

theorem C3_memoized_construction_witness:
  "run_segments init two_lookups \<noteq> None \<and>
   map_option (\<lambda>w. length (filter (is_trace_call 0 ''dev'') (calls w)))
     (run_segments init two_lookups) = Some 1 \<and>
   map_option (\<lambda>w. traceStoresByEnvCache (heap w ! 0) ''dev'') (run_segments init two_lookups) =
     Some (Some (Promise 0 (Fulfils (TraceStore 1))))"
proof -
  have ex: "run_segments init two_lookups \<noteq> None"
    by code_simp
  then obtain w where w: "run_segments init two_lookups = Some w"
    by blast
  have one: "map_option (\<lambda>w. 1 \<le> length (filter (is_trace_call 0 ''dev'') (calls w)))
      (run_segments init two_lookups) = Some True"
    by code_simp
  have cache: "map_option (\<lambda>w. traceStoresByEnvCache (heap w ! 0) ''dev'')
      (run_segments init two_lookups) = Some (Some (Promise 0 (Fulfils (TraceStore 1))))"
    by code_simp
  have "length (filter (is_trace_call 0 ''dev'') (calls w)) \<le> 1"
    using C3_memoized_construction [OF w, of 0 "''dev''"] by blast
  moreover have "1 \<le> length (filter (is_trace_call 0 ''dev'') (calls w))"
    using one w by simp
  ultimately have "length (filter (is_trace_call 0 ''dev'') (calls w)) = 1"
    by simp
  with w ex cache show ?thesis by simp
qed

text \<open>
  C3 as stated fails for plugins: the memo of an initializer is a variable of the closure
  made by one registration, not a slot keyed by the plugin name. Registering a provider
  under \<open>p\<close> on the global registry, initializing \<open>p\<close>, registering the same provider
  under \<open>p\<close> again and initializing \<open>p\<close> again calls the initializer twice for the pair
  (global registry, \<open>p\<close>).
\<close>

theorem C3_memoized_construction_counterexample:
  "map_option calls (run_segments init reregistration) =
     Some [InitializerCalled 0 9, InitializerCalled 1 9] \<and>
   map_option (\<lambda>w. length (calls w) \<le> 1) (run_segments init reregistration) = Some False \<and>
   map_option (\<lambda>w. map_option pb_cached (map_of (pluginsByName (heap w ! 0)) ''p''))
     (run_segments init reregistration) = Some (Some 1)"
  by code_simp

text \<open>
  Away from the names a table inherits, a key with another number of segments than four
  is looked up without any plugin: the state is returned as it was, and the result is
  that of the plain local-then-parent lookup, \<open>undefined\<close> if no registry holds the key.
\<close>

lemma plain_key_lookup:
  assumes "parents_below w" and "this < length (heap w)"
    and "k \<notin> set Object_prototype_names"
  shows "parsePluginName k =
           (if length (str_split CHR ''/'' k) = 4 then Some (str_split CHR ''/'' k ! 2)
            else None) \<and>
         length (str_split CHR ''/'' k) = Suc (count_list k CHR ''/'') \<and>
         (length (str_split CHR ''/'' k) \<noteq> 4 \<longrightarrow>
            Registry_lookupAction w als this k = (w, Returned (plain_chain_lookup w this k)) \<and>
            ((\<forall>n < length (heap w). actionsById (heap w ! n) k = None) \<longrightarrow>
               Registry_lookupAction w als this k = (w, Returned None)))"
proof (intro conjI impI)
  show name: "parsePluginName k =
      (if length (str_split CHR ''/'' k) = 4 then Some (str_split CHR ''/'' k ! 2) else None)"
    by (simp add: parsePluginName_def Let_def)
  show "length (str_split CHR ''/'' k) = Suc (count_list k CHR ''/'')"
    by (rule length_str_split)
  assume other: "length (str_split CHR ''/'' k) \<noteq> 4"
  then have none: "parsePluginName k = None"
    using name by simp
  show plain: "Registry_lookupAction w als this k = (w, Returned (plain_chain_lookup w this k))"
    using none assms(1,3,2) by (rule lookupAction_no_plugin)
  assume "\<forall>n < length (heap w). actionsById (heap w ! n) k = None"
  then have "plain_chain_lookup w this k = None"
    using assms by (intro plain_chain_lookup_nowhere) auto
  with plain show "Registry_lookupAction w als this k = (w, Returned None)"
    by simp
qed

text \<open>
  C4. The plugin name derived from a key is its third segment exactly when splitting the
  key on \<open>/\<close> gives four segments, and for other keys no plugin is inferred and no
  initializer runs (\<open>plain_key_lookup\<close>). What the claim says of the result fails at the
  names a table inherits: the key \<open>constructor\<close> has one segment, the initial registry
  has no parent and no action, and \<open>lookupAction('constructor')\<close> returns the inherited
  member where the plain chain lookup of the claim finds nothing and the claim promises
  \<open>undefined\<close>.
\<close>

theorem C4_lookupAction_inherited_key:
  "length (str_split CHR ''/'' ''constructor'') = 1 \<and>
   parsePluginName ''constructor'' = None \<and>
   length (heap init) = 1 \<and> parent (heap init ! 0) = None \<and>
   actionsById (heap init ! 0) ''constructor'' = None \<and>
   plain_chain_lookup init 0 ''constructor'' = None \<and>
   snd (Registry_lookupAction init None 0 ''constructor'') = ReturnedMember ''constructor'' \<and>
   calls (fst (Registry_lookupAction init None 0 ''constructor'')) = []"
  by code_simp

text \<open>
  Two examples of a listing. In \<open>shadow_world\<close> the child lists the flow \<open>f\<close> as its
  own entry, not as the parent's, together with the model its plugin registers. In
  \<open>two_plugin_world\<close> the listing calls the initializers of both plugins, in the order of
  their registration, and contains what both register.
\<close>

lemma listActions_example:
  "actionsById (heap shadow_world ! 0) ''/flow/f'' = Some (Action ''f'' 2) \<and>
   actionsById (heap shadow_world ! 1) ''/flow/f'' = Some (Action ''f'' 3) \<and>
   (case snd (Registry_listActions shadow_world (Some 1) 1) of
      Returned m \<Rightarrow>
        m ''/flow/f'' = Some (Action ''f'' 3) \<and>
        m ''/model/myplugin/gpt'' = Some (Action ''myplugin/gpt'' 1)
    | Thrown e \<Rightarrow> False
    | ReturnedMember k \<Rightarrow> False) \<and>
   calls (fst (Registry_listActions shadow_world (Some 1) 1)) = [InitializerCalled 0 7] \<and>
   map fst (pluginsByName (heap two_plugin_world ! 0)) = [''a'', ''b''] \<and>
   calls (fst (Registry_listActions two_plugin_world None 0)) =
     [InitializerCalled 0 7, InitializerCalled 1 8] \<and>
   (case snd (Registry_listActions two_plugin_world None 0) of
      Returned m \<Rightarrow>
        m ''/model/myplugin/gpt'' = Some (Action ''myplugin/gpt'' 1) \<and>
        m ''/tool/b/t'' = Some (Action ''b/t'' 2)
    | Thrown e \<Rightarrow> False
    | ReturnedMember k \<Rightarrow> False)"
  by code_simp

text \<open>
  C5. \<open>Registry.listActions()\<close> calls \<open>initializePlugin\<close> for every own key of the
  node's plugin table and then returns the parent's listing overridden by the local
  action table (\<open>listActions_unfold\<close>, \<open>listActions_initializes\<close>,
  \<open>listActions_local_wins\<close>). It does not initialize every plugin registered on the
  node: a plugin registered under \<^verbatim>\<open>__proto__\<close> is no own key of the table (the assignment
  replaces the table's prototype), so \<open>lookupPlugin\<close> finds it and \<open>initializePlugin\<close>
  runs its initializer, which registers a model, but \<open>listActions\<close> calls nothing and
  returns a listing without that model.
\<close>

theorem C5_listActions_skips_plugin:
  "Registry_lookupPlugin proto_plugin_world 0 ''__proto__'' =
     Returned (Some \<lparr>pb_name = ''myplugin'', pb_cached = 0, pb_provider = example_plugin\<rparr>) \<and>
   object_keys (pluginsByName (heap proto_plugin_world ! 0)) = [] \<and>
   calls (fst (Registry_listActions proto_plugin_world None 0)) = [] \<and>
   (case snd (Registry_listActions proto_plugin_world None 0) of
      Returned m \<Rightarrow> m ''/model/myplugin/gpt'' = None
    | Thrown e \<Rightarrow> False
    | ReturnedMember k \<Rightarrow> False) \<and>
   calls (fst (Registry_initializePlugin proto_plugin_world None 0 ''__proto__'')) =
     [InitializerCalled 0 7] \<and>
   actionsById (heap (fst (Registry_initializePlugin proto_plugin_world None 0 ''__proto__'')) ! 0)
     ''/model/myplugin/gpt'' = Some (Action ''myplugin/gpt'' 1)"
  by code_simp

text \<open>
  Away from the names a table inherits, a local binding wins. For a node with a parent
  and an environment name that is not a name of \<^verbatim>\<open>Object.prototype\<close>: if the node has a
  provider bound for \<open>env\<close>, the lookup returns what the local memoized construction
  settles to (the cached promise, or on first access the promise of one call of the
  local provider, which is then cached) and leaves the parent object untouched, whatever
  the parent has cached; if no provider is bound locally (and the prototype of the
  node's provider table has not been replaced), the lookup is the parent's lookup.
\<close>

lemma plain_env_local_binding_wins:
  assumes "parents_below w" and "this < length (heap w)"
    and "parent (heap w ! this) = Some p"
    and "env \<notin> set Object_prototype_names"
    and "traceStoresByEnv_proto (heap w ! this) = None"
  shows
    "case traceStoresByEnv (heap w ! this) env of
        None \<Rightarrow> Registry_lookupTraceStore w this env = Registry_lookupTraceStore w p env
      | Some provider \<Rightarrow>
          Registry_lookupTraceStore w this env =
            (case traceStoresByEnvCache (heap w ! this) env of
               Some cached \<Rightarrow> (w, map_outcome Some (await cached))
             | None \<Rightarrow>
                 (modify this
                    (\<lambda>r. r\<lparr>traceStoresByEnvCache :=
                          (traceStoresByEnvCache r)
                            (env \<mapsto> Promise (length (calls w)) (yields provider))\<rparr>)
                    (w\<lparr>calls := calls w @ [TraceStoreProviderCalled this env (tag provider)]\<rparr>),
                  map_outcome Some (await (Promise (length (calls w)) (yields provider))))) \<and>
          heap (fst (Registry_lookupTraceStore w this env)) ! p = heap w ! p"
proof (cases "traceStoresByEnv (heap w ! this) env")
  case None
  then have "traceStore_at (heap w ! this) env = None"
    using assms(5,4) by (rule traceStore_at_unbound)
  with None show ?thesis
    by (simp add: lookupTraceStore_unfold [OF assms(1,2)] overlaidTraceStore_unbound assms(3))
next
  case (Some provider)
  have neq: "p \<noteq> this"
    using parents_belowD [OF assms(1,2,3)] by simp
  note at = traceStore_at_own [OF Some]
  show ?thesis
  proof (cases "traceStoresByEnvCache (heap w ! this) env")
    case None
    with Some neq show ?thesis
      by (simp add: lookupTraceStore_fresh [OF at None assms(4)] heap_modify)
  next
    case cached: (Some c)
    with Some show ?thesis
      by (simp add: lookupTraceStore_cached [OF at cached])
  qed
qed

lemma plain_env_local_flow_binding_wins:
  assumes "parents_below w" and "this < length (heap w)"
    and "parent (heap w ! this) = Some p"
    and "env \<notin> set Object_prototype_names"
    and "flowStateStoresByEnv_proto (heap w ! this) = None"
  shows
    "case flowStateStoresByEnv (heap w ! this) env of
        None \<Rightarrow> Registry_lookupFlowStateStore w this env = Registry_lookupFlowStateStore w p env
      | Some provider \<Rightarrow>
          Registry_lookupFlowStateStore w this env =
            (case flowStateStoresByEnvCache (heap w ! this) env of
               Some cached \<Rightarrow> (w, map_outcome Some (await cached))
             | None \<Rightarrow>
                 (modify this
                    (\<lambda>r. r\<lparr>flowStateStoresByEnvCache :=
                          (flowStateStoresByEnvCache r)
                            (env \<mapsto> Promise (length (calls w)) (yields provider))\<rparr>)
                    (w\<lparr>calls := calls w @
                        [FlowStateStoreProviderCalled this env (tag provider)]\<rparr>),
                  map_outcome Some (await (Promise (length (calls w)) (yields provider))))) \<and>
          heap (fst (Registry_lookupFlowStateStore w this env)) ! p = heap w ! p"
proof (cases "flowStateStoresByEnv (heap w ! this) env")
  case None
  then have "flowStateStore_at (heap w ! this) env = None"
    using assms(5,4) by (rule flowStateStore_at_unbound)
  with None show ?thesis
    by (simp add: lookupFlowStateStore_unfold [OF assms(1,2)] overlaidFlowStateStore_unbound
        assms(3))
next
  case (Some provider)
  have neq: "p \<noteq> this"
    using parents_belowD [OF assms(1,2,3)] by simp
  note at = flowStateStore_at_own [OF Some]
  show ?thesis
  proof (cases "flowStateStoresByEnvCache (heap w ! this) env")
    case None
    with Some neq show ?thesis
      by (simp add: lookupFlowStateStore_fresh [OF at None assms(4)] heap_modify)
  next
    case cached: (Some c)
    with Some show ?thesis
      by (simp add: lookupFlowStateStore_cached [OF at cached])
  qed
qed

text \<open>
  An example: in \<open>store_world\<close> the parent has a trace store for \<open>dev\<close> constructed and
  cached, and the child has its own providers for \<open>dev\<close> and none for \<open>prod\<close>.
\<close>

lemma local_binding_example:
  "parent (heap store_world ! 1) = Some 0 \<and>
   traceStoresByEnvCache (heap store_world ! 0) ''dev'' = Some (Promise 0 (Fulfils (TraceStore 1))) \<and>
   snd (Registry_lookupTraceStore store_world 1 ''dev'') = Returned (Some (TraceStore 2)) \<and>
   snd (Registry_lookupTraceStore store_world 1 ''prod'') = Returned (Some (TraceStore 3)) \<and>
   snd (Registry_lookupFlowStateStore store_world 1 ''dev'') = Thrown (Err 5) \<and>
   snd (Registry_lookupFlowStateStore store_world 1 ''prod'') = Returned (Some (FlowStateStore 4))"
  by code_simp

text \<open>
  C6. A local binding wins and delegation happens exactly without one
  (\<open>plain_env_local_binding_wins\<close>, \<open>plain_env_local_flow_binding_wins\<close>), but not for
  every environment name. In \<open>constructor_store_world\<close> the child has providers bound for
  \<open>constructor\<close>: the lookups return the member the cache inherits under that name and
  call neither provider. In \<open>constructor_parent_world\<close> only the parent has a provider
  for \<open>constructor\<close>: the child's lookup does not delegate, it returns the inherited
  member as well, where the parent's own construction would be made by a lookup of
  another name.
\<close>

theorem C6_inherited_env_shadows_binding:
  "parent (heap constructor_store_world ! 1) = Some 0 \<and>
   traceStoresByEnv (heap constructor_store_world ! 1) ''constructor'' =
     Some (AsyncProvider 1 (Fulfils (TraceStore 1))) \<and>
   flowStateStoresByEnv (heap constructor_store_world ! 1) ''constructor'' =
     Some (AsyncProvider 2 (Fulfils (FlowStateStore 2))) \<and>
   snd (Registry_lookupTraceStore constructor_store_world 1 ''constructor'') =
     ReturnedMember ''constructor'' \<and>
   calls (fst (Registry_lookupTraceStore constructor_store_world 1 ''constructor'')) = [] \<and>
   snd (Registry_lookupFlowStateStore constructor_store_world 1 ''constructor'') =
     ReturnedMember ''constructor'' \<and>
   calls (fst (Registry_lookupFlowStateStore constructor_store_world 1 ''constructor'')) = [] \<and>
   parent (heap constructor_parent_world ! 1) = Some 0 \<and>
   traceStoresByEnv (heap constructor_parent_world ! 1) ''constructor'' = None \<and>
   traceStoresByEnv (heap constructor_parent_world ! 0) ''constructor'' =
     Some (AsyncProvider 1 (Fulfils (TraceStore 1))) \<and>
   snd (Registry_lookupTraceStore constructor_parent_world 1 ''constructor'') =
     ReturnedMember ''constructor'' \<and>
   calls (fst (Registry_lookupTraceStore constructor_parent_world 1 ''constructor'')) = [] \<and>
   snd (Registry_lookupTraceStore constructor_parent_world 1 ''dev'') =
     Returned (Some (TraceStore 3)) \<and>
   calls (fst (Registry_lookupTraceStore constructor_parent_world 1 ''dev'')) =
     [TraceStoreProviderCalled 0 ''dev'' 3]"
  by code_simp

text \<open>
  C7. \<open>runInTempRegistry(fn)\<close> allocates a fresh registry whose parent is the registry
  current at the call and runs \<open>fn\<close> with that child as the current registry. Whatever
  script of module-level calls and nested scopes \<open>fn\<close> is, the tables (actions, trace
  store providers, flow state store providers, plugins, schemas) of the original node,
  and of every registry that existed before the call, are afterwards what they were.
\<close>

theorem C7_runInTempRegistry:
  assumes "getRegistryInstance w als < length (heap w)"
  shows
    "withCurrent w als =
       (w\<lparr>heap := heap w @ [new_Registry (Some (getRegistryInstance w als))]\<rparr>,
        length (heap w)) \<and>
     runInTempRegistry w als (\<lambda>w1 als1 registry. run_cmds w1 als1 fn) =
       run_cmds (w\<lparr>heap := heap w @ [new_Registry (Some (getRegistryInstance w als))]\<rparr>)
         (Some (length (heap w))) fn \<and>
     tables (heap (fst (runInTempRegistry w als (\<lambda>w1 als1 registry. run_cmds w1 als1 fn))) !
        getRegistryInstance w als) =
       tables (heap w ! getRegistryInstance w als) \<and>
     (\<forall>n<length (heap w).
        tables (heap (fst (runInTempRegistry w als (\<lambda>w1 als1 registry. run_cmds w1 als1 fn))) ! n) =
          tables (heap w ! n))"
proof -
  let ?child = "w\<lparr>heap := heap w @ [new_Registry (Some (getRegistryInstance w als))]\<rparr>"
  have wc: "withCurrent w als = (?child, length (heap w))"
    by (simp add: withCurrent_def alloc_def)
  have run: "runInTempRegistry w als (\<lambda>w1 als1 registry. run_cmds w1 als1 fn) =
      run_cmds ?child (Some (length (heap w))) fn"
    by (simp add: runInTempRegistry_def runInRegistry_def wc)
  have "unchanged_below (length (heap w)) ?child (fst (run_cmds ?child (Some (length (heap w))) fn))"
    by (rule unchanged_below_run(2) [where cur = "length (heap w)"]) simp_all
  then have same: "tables (heap (fst (run_cmds ?child (Some (length (heap w))) fn)) ! n) =
      tables (heap w ! n)" if "n < length (heap w)" for n
    using that by (simp add: unchanged_below_def nth_append)
  from wc run same assms show ?thesis
    by simp
qed



theorem C7_runInTempRegistry_witness:
  "getRegistryInstance layered_world (Some 1) < length (heap layered_world) \<and>
   tables (heap (fst (runInTempRegistry layered_world (Some 1)
       (\<lambda>w1 als1 registry. run_cmds w1 als1 temp_script))) ! 1) =
     tables (heap layered_world ! 1) \<and>
   actionsById (heap layered_world ! 1) ''/tool/t'' = None \<and>
   actionsById (heap (fst (runInTempRegistry layered_world (Some 1)
       (\<lambda>w1 als1 registry. run_cmds w1 als1 temp_script))) ! 2) ''/tool/t'' =
     Some (Action ''t'' 4) \<and>
   actionsById (heap (fst (runInTempRegistry layered_world (Some 1)
       (\<lambda>w1 als1 registry. run_cmds w1 als1 temp_script))) ! 2) ''/model/myplugin/gpt'' =
     Some (Action ''myplugin/gpt'' 1) \<and>
   parent (heap (fst (runInTempRegistry layered_world (Some 1)
       (\<lambda>w1 als1 registry. run_cmds w1 als1 temp_script))) ! 2) = Some 1"
proof -
  have cur: "getRegistryInstance layered_world (Some 1) = 1"
    by code_simp
  have len: "getRegistryInstance layered_world (Some 1) < length (heap layered_world)"
    by code_simp
  have a: "actionsById (heap layered_world ! 1) ''/tool/t'' = None"
    by code_simp
  have b: "actionsById (heap (fst (runInTempRegistry layered_world (Some 1)
       (\<lambda>w1 als1 registry. run_cmds w1 als1 temp_script))) ! 2) ''/tool/t'' =
     Some (Action ''t'' 4)"
    by code_simp
  have c: "actionsById (heap (fst (runInTempRegistry layered_world (Some 1)
       (\<lambda>w1 als1 registry. run_cmds w1 als1 temp_script))) ! 2) ''/model/myplugin/gpt'' =
     Some (Action ''myplugin/gpt'' 1)"
    by code_simp
  have d: "parent (heap (fst (runInTempRegistry layered_world (Some 1)
       (\<lambda>w1 als1 registry. run_cmds w1 als1 temp_script))) ! 2) = Some 1"
    by code_simp
  have "tables (heap (fst (runInTempRegistry layered_world (Some 1)
       (\<lambda>w1 als1 registry. run_cmds w1 als1 temp_script))) ! 1) =
     tables (heap layered_world ! 1)"
  proof -
    have "tables (heap (fst (runInTempRegistry layered_world (Some 1)
         (\<lambda>w1 als1 registry. run_cmds w1 als1 temp_script))) !
           getRegistryInstance layered_world (Some 1)) =
       tables (heap layered_world ! getRegistryInstance layered_world (Some 1))"
      using C7_runInTempRegistry [OF len, of temp_script] by blast
    then show ?thesis
      unfolding cur .
  qed
  with len a b c d show ?thesis by simp
qed

text \<open>
  C8. Registering an action whose key \<open>/<type>/<name>\<close> is already in the node's table
  is an ordinary registration (its result is a state, there is no error result): it logs
  the registration notice and then a warning, replaces the entry, and a following
  \<open>lookupAction\<close> of that key returns the action written last.
\<close>

theorem C8_registerAction_overwrite:
  assumes "this < length (heap w)"
    and "actionsById (heap w ! this) (action_key ty a2) = Some a1"
  shows "logged (Registry_registerAction w this ty a2) =
           logged w @
             [(Info, ''Registering '' @ type_str ty @ '': '' @ action_name a2),
              (Warn, ''WARNING: '' @ action_key ty a2 @
                 '' already has an entry in the registry. Overwriting.'')] \<and>
         actionsById (heap (Registry_registerAction w this ty a2) ! this) =
           (actionsById (heap w ! this))(action_key ty a2 \<mapsto> a2) \<and>
         Registry_lookupAction (Registry_registerAction w this ty a2) als this
             (action_key ty a2) =
           (Registry_registerAction w this ty a2, Returned (Some a2))"
proof -
  let ?w = "Registry_registerAction w this ty a2"
  have log: "logged ?w =
      logged w @
        [(Info, ''Registering '' @ type_str ty @ '': '' @ action_name a2),
         (Warn, ''WARNING: '' @ action_key ty a2 @
            '' already has an entry in the registry. Overwriting.'')]"
    using assms(2) by (simp add: Registry_registerAction_def Let_def modify_def)
  have tab: "actionsById (heap ?w ! this) = (actionsById (heap w ! this))(action_key ty a2 \<mapsto> a2)"
    using assms(1) by (simp add: Registry_registerAction_def Let_def heap_modify)
  have "Registry_lookupAction ?w als this (action_key ty a2) = (?w, Returned (Some a2))"
    by (subst Registry_lookupAction.simps) (simp add: tab get_def)
  with log tab show ?thesis by simp
qed

theorem C8_registerAction_overwrite_witness:
  "0 < length (heap (Registry_registerAction init 0 Tool (Action ''t'' 1))) \<and>
   actionsById (heap (Registry_registerAction init 0 Tool (Action ''t'' 1)) ! 0)
     (action_key Tool (Action ''t'' 2)) = Some (Action ''t'' 1) \<and>
   snd (Registry_lookupAction
     (Registry_registerAction (Registry_registerAction init 0 Tool (Action ''t'' 1)) 0 Tool
        (Action ''t'' 2)) None 0 ''/tool/t'') = Returned (Some (Action ''t'' 2)) \<and>
   map fst (logged
     (Registry_registerAction (Registry_registerAction init 0 Tool (Action ''t'' 1)) 0 Tool
        (Action ''t'' 2))) = [Info, Info, Warn]"
proof -
  let ?w = "Registry_registerAction init 0 Tool (Action ''t'' 1)"
  have len: "0 < length (heap ?w)"
    by code_simp
  have old: "actionsById (heap ?w ! 0) (action_key Tool (Action ''t'' 2)) = Some (Action ''t'' 1)"
    by code_simp
  have k: "action_key Tool (Action ''t'' 2) = ''/tool/t''"
    by code_simp
  have l: "map fst (logged ?w) = [Info]"
    by code_simp
  show ?thesis
    using C8_registerAction_overwrite [OF len old, of None] len old l
    by (simp add: k)
qed

text \<open>
  C9. Once the cache slot of a node for \<open>env\<close> holds a promise, registering another
  provider for \<open>env\<close> on that node changes nothing a lookup returns: the lookup after
  the registration returns what the cached promise settles to and leaves the state as
  the registration left it, so the new provider is not called (the registration itself
  calls nothing).
\<close>

theorem C9_cache_survives_registration:
  assumes "this < length (heap w)"
  shows
    "(traceStoresByEnvCache (heap w ! this) env = Some pr \<longrightarrow>
        Registry_lookupTraceStore (Registry_registerTraceStore w this env p2) this env =
          (Registry_registerTraceStore w this env p2, map_outcome Some (await pr))) \<and>
     (flowStateStoresByEnvCache (heap w ! this) env = Some pr' \<longrightarrow>
        Registry_lookupFlowStateStore (Registry_registerFlowStateStore w this env p2') this env =
          (Registry_registerFlowStateStore w this env p2', map_outcome Some (await pr'))) \<and>
     calls (Registry_registerTraceStore w this env p2) = calls w \<and>
     calls (Registry_registerFlowStateStore w this env p2') = calls w"
proof (intro conjI impI)
  let ?t = "Registry_registerTraceStore w this env p2"
  let ?f = "Registry_registerFlowStateStore w this env p2'"
  have lt: "this < length (heap ?t)"
    using assms by (simp add: Registry_registerTraceStore_def length_heap_modify)
  have lf: "this < length (heap ?f)"
    using assms by (simp add: Registry_registerFlowStateStore_def length_heap_modify)
  obtain qt where bt: "traceStore_at (heap ?t ! this) env = Some (Registered qt)"
    using traceStore_at_registerTraceStore [OF assms] by blast
  obtain qf where bf: "flowStateStore_at (heap ?f ! this) env = Some (Registered qf)"
    using flowStateStore_at_registerFlowStateStore [OF assms] by blast
  show "calls ?t = calls w"
    by (simp add: Registry_registerTraceStore_def calls_modify)
  show "calls ?f = calls w"
    by (simp add: Registry_registerFlowStateStore_def calls_modify)
  {
    assume "traceStoresByEnvCache (heap w ! this) env = Some pr"
    then have "traceStoresByEnvCache (heap ?t ! this) env = Some pr"
      using assms by (auto simp: Registry_registerTraceStore_def heap_modify)
    then show "Registry_lookupTraceStore ?t this env = (?t, map_outcome Some (await pr))"
      by (rule lookupTraceStore_cached [OF bt])
  }
  {
    assume "flowStateStoresByEnvCache (heap w ! this) env = Some pr'"
    then have "flowStateStoresByEnvCache (heap ?f ! this) env = Some pr'"
      using assms by (auto simp: Registry_registerFlowStateStore_def heap_modify)
    then show "Registry_lookupFlowStateStore ?f this env = (?f, map_outcome Some (await pr'))"
      by (rule lookupFlowStateStore_cached [OF bf])
  }
qed

theorem C9_cache_survives_registration_witness:
  "0 < length (heap cached_world) \<and>
   traceStoresByEnvCache (heap cached_world ! 0) ''dev'' = Some (Promise 0 (Fulfils (TraceStore 1))) \<and>
   flowStateStoresByEnvCache (heap cached_world ! 0) ''dev'' =
     Some (Promise 1 (Fulfils (FlowStateStore 2))) \<and>
   Registry_lookupTraceStore
     (Registry_registerTraceStore cached_world 0 ''dev'' (AsyncProvider 8 (Fulfils (TraceStore 8))))
     0 ''dev'' =
     (Registry_registerTraceStore cached_world 0 ''dev'' (AsyncProvider 8 (Fulfils (TraceStore 8))),
      Returned (Some (TraceStore 1))) \<and>
   Registry_lookupFlowStateStore
     (Registry_registerFlowStateStore cached_world 0 ''dev''
        (AsyncProvider 9 (Fulfils (FlowStateStore 9))))
     0 ''dev'' =
     (Registry_registerFlowStateStore cached_world 0 ''dev''
        (AsyncProvider 9 (Fulfils (FlowStateStore 9))),
      Returned (Some (FlowStateStore 2)))"
proof -
  have len: "0 < length (heap cached_world)"
    by code_simp
  have t: "traceStoresByEnvCache (heap cached_world ! 0) ''dev'' =
      Some (Promise 0 (Fulfils (TraceStore 1)))"
    by code_simp
  have f: "flowStateStoresByEnvCache (heap cached_world ! 0) ''dev'' =
      Some (Promise 1 (Fulfils (FlowStateStore 2)))"
    by code_simp
  show ?thesis
    using C9_cache_survives_registration [OF len, of "''dev''"
        "Promise 0 (Fulfils (TraceStore 1))" "AsyncProvider 8 (Fulfils (TraceStore 8))"
        "Promise 1 (Fulfils (FlowStateStore 2))" "AsyncProvider 9 (Fulfils (FlowStateStore 9))"]
      len t f
    by simp
qed

text \<open>
  The four other registrations log nothing, whatever the key. Away from the names a
  table inherits, the second of two registrations under one key is the one in force: an
  uncached store lookup calls the second provider once and returns its promise,
  \<open>lookupPlugin\<close> returns the binding of the second plugin provider and
  \<open>initializePlugin\<close> calls its initializer, and \<open>lookupSchema\<close> returns the second
  schema.
\<close>

lemma plain_key_silent_overwrite:
  assumes "this < length (heap w)"
  shows
    "logged (Registry_registerTraceStore w this env t2) = logged w \<and>
     logged (Registry_registerFlowStateStore w this env f2) = logged w \<and>
     logged (Registry_registerPluginProvider w this nm p2) = logged w \<and>
     logged (Registry_registerSchema w this nm d2) = logged w \<and>
     (env \<notin> set Object_prototype_names \<longrightarrow>
      traceStoresByEnv_proto (heap w ! this) = None \<longrightarrow>
      traceStoresByEnvCache (heap w ! this) env = None \<longrightarrow>
        Registry_lookupOverlaidTraceStore
          (Registry_registerTraceStore (Registry_registerTraceStore w this env t1) this env t2)
          this env =
        (modify this
           (\<lambda>r. r\<lparr>traceStoresByEnvCache :=
                 (traceStoresByEnvCache r)(env \<mapsto> Promise (length (calls w)) (yields t2))\<rparr>)
           ((Registry_registerTraceStore (Registry_registerTraceStore w this env t1) this env t2)
              \<lparr>calls := calls w @ [TraceStoreProviderCalled this env (tag t2)]\<rparr>),
         Some (Registered (Promise (length (calls w)) (yields t2))))) \<and>
     (env \<notin> set Object_prototype_names \<longrightarrow>
      flowStateStoresByEnv_proto (heap w ! this) = None \<longrightarrow>
      flowStateStoresByEnvCache (heap w ! this) env = None \<longrightarrow>
        Registry_lookupOverlaidFlowStateStore
          (Registry_registerFlowStateStore (Registry_registerFlowStateStore w this env f1) this
             env f2)
          this env =
        (modify this
           (\<lambda>r. r\<lparr>flowStateStoresByEnvCache :=
                 (flowStateStoresByEnvCache r)(env \<mapsto> Promise (length (calls w)) (yields f2))\<rparr>)
           ((Registry_registerFlowStateStore (Registry_registerFlowStateStore w this env f1) this
               env f2)
              \<lparr>calls := calls w @ [FlowStateStoreProviderCalled this env (tag f2)]\<rparr>),
         Some (Registered (Promise (length (calls w)) (yields f2))))) \<and>
     (nm \<noteq> ''__proto__'' \<longrightarrow>
        Registry_lookupPlugin
          (Registry_registerPluginProvider (Registry_registerPluginProvider w this nm p1) this nm
             p2)
          this nm =
          Returned (Some \<lparr>pb_name = provider_name p2, pb_cached = Suc (length (cells w)),
                          pb_provider = p2\<rparr>) \<and>
        calls (fst (Registry_initializePlugin
          (Registry_registerPluginProvider (Registry_registerPluginProvider w this nm p1) this nm
             p2)
          als this nm)) =
          calls w @ [InitializerCalled (Suc (length (cells w))) (init_tag p2)] \<and>
        Registry_lookupSchema
          (Registry_registerSchema (Registry_registerSchema w this nm d1) this nm d2) this nm =
          Returned (Some d2))"
proof (intro conjI impI)
  show "logged (Registry_registerTraceStore w this env t2) = logged w"
    by (simp add: Registry_registerTraceStore_def logged_modify)
  show "logged (Registry_registerFlowStateStore w this env f2) = logged w"
    by (simp add: Registry_registerFlowStateStore_def logged_modify)
  show "logged (Registry_registerPluginProvider w this nm p2) = logged w"
    by (simp add: Registry_registerPluginProvider_def Let_def logged_modify)
  show "logged (Registry_registerSchema w this nm d2) = logged w"
    by (simp add: Registry_registerSchema_def logged_modify)
next
  let ?w2 = "Registry_registerTraceStore (Registry_registerTraceStore w this env t1) this env t2"
  assume np: "env \<notin> set Object_prototype_names"
  then have ne: "env \<noteq> ''__proto__''"
    using proto_name by auto
  assume "traceStoresByEnvCache (heap w ! this) env = None"
  then have c: "traceStoresByEnvCache (heap ?w2 ! this) env = None"
    using assms ne
    by (simp add: Registry_registerTraceStore_def heap_modify length_heap_modify)
  have "traceStoresByEnv (heap ?w2 ! this) env = Some t2"
    using assms ne
    by (simp add: Registry_registerTraceStore_def heap_modify length_heap_modify)
  then have b: "traceStore_at (heap ?w2 ! this) env = Some (Registered t2)"
    by (rule traceStore_at_own)
  have "calls ?w2 = calls w"
    by (simp add: Registry_registerTraceStore_def calls_modify)
  then show "Registry_lookupOverlaidTraceStore ?w2 this env =
      (modify this
         (\<lambda>r. r\<lparr>traceStoresByEnvCache :=
               (traceStoresByEnvCache r)(env \<mapsto> Promise (length (calls w)) (yields t2))\<rparr>)
         (?w2\<lparr>calls := calls w @ [TraceStoreProviderCalled this env (tag t2)]\<rparr>),
       Some (Registered (Promise (length (calls w)) (yields t2))))"
    by (simp add: overlaidTraceStore_fresh [OF b c np])
next
  let ?w2 = "Registry_registerFlowStateStore (Registry_registerFlowStateStore w this env f1) this
      env f2"
  assume np: "env \<notin> set Object_prototype_names"
  then have ne: "env \<noteq> ''__proto__''"
    using proto_name by auto
  assume "flowStateStoresByEnvCache (heap w ! this) env = None"
  then have c: "flowStateStoresByEnvCache (heap ?w2 ! this) env = None"
    using assms ne
    by (simp add: Registry_registerFlowStateStore_def heap_modify length_heap_modify)
  have "flowStateStoresByEnv (heap ?w2 ! this) env = Some f2"
    using assms ne
    by (simp add: Registry_registerFlowStateStore_def heap_modify length_heap_modify)
  then have b: "flowStateStore_at (heap ?w2 ! this) env = Some (Registered f2)"
    by (rule flowStateStore_at_own)
  have "calls ?w2 = calls w"
    by (simp add: Registry_registerFlowStateStore_def calls_modify)
  then show "Registry_lookupOverlaidFlowStateStore ?w2 this env =
      (modify this
         (\<lambda>r. r\<lparr>flowStateStoresByEnvCache :=
               (flowStateStoresByEnvCache r)(env \<mapsto> Promise (length (calls w)) (yields f2))\<rparr>)
         (?w2\<lparr>calls := calls w @ [FlowStateStoreProviderCalled this env (tag f2)]\<rparr>),
       Some (Registered (Promise (length (calls w)) (yields f2))))"
    by (simp add: overlaidFlowStateStore_fresh [OF b c np])
next
  let ?w2 = "Registry_registerPluginProvider (Registry_registerPluginProvider w this nm p1) this nm p2"
  let ?b = "\<lparr>pb_name = provider_name p2, pb_cached = Suc (length (cells w)), pb_provider = p2\<rparr>"
  assume ne: "nm \<noteq> ''__proto__''"
  note tw = registerPluginProvider_twice [OF assms ne, of p1 p2]
  note at = plugin_at_own [OF tw(1)]
  show "Registry_lookupPlugin ?w2 this nm = Returned (Some ?b)"
    by (subst Registry_lookupPlugin.simps) (simp add: at)
  have "cells ?w2 ! pb_cached ?b = None"
    by (simp add: tw(2) nth_append)
  from initializePlugin_fresh [OF at this, of als]
  show "calls (fst (Registry_initializePlugin ?w2 als this nm)) =
      calls w @ [InitializerCalled (Suc (length (cells w))) (init_tag p2)]"
    by (simp add: tw(3))
  have "schemasByName
      (heap (Registry_registerSchema (Registry_registerSchema w this nm d1) this nm d2) ! this)
      nm = Some d2"
    using assms ne by (simp add: Registry_registerSchema_def heap_modify length_heap_modify)
  then show "Registry_lookupSchema
       (Registry_registerSchema (Registry_registerSchema w this nm d1) this nm d2) this nm =
       Returned (Some d2)"
    by (subst Registry_lookupSchema.simps) (simp add: schema_at_own)
qed

text \<open>
  C10. The registrations are silent (\<open>plain_key_silent_overwrite\<close>), but the last
  registration is not the one a lookup returns under every key. After two trace store
  providers, and two flow state store providers, have been registered on the initial
  registry under \<open>constructor\<close>, nothing is cached (no provider has been called), the
  second provider is the one in the table, and the lookups return the member the cache
  inherits under that name and call no provider.
\<close>

theorem C10_inherited_env_ignores_registration:
  "logged constructor_twice_world = [] \<and> calls constructor_twice_world = [] \<and>
   traceStoresByEnv (heap constructor_twice_world ! 0) ''constructor'' =
     Some (AsyncProvider 2 (Fulfils (TraceStore 2))) \<and>
   traceStoresByEnvCache (heap constructor_twice_world ! 0) ''constructor'' = None \<and>
   snd (Registry_lookupTraceStore constructor_twice_world 0 ''constructor'') =
     ReturnedMember ''constructor'' \<and>
   calls (fst (Registry_lookupTraceStore constructor_twice_world 0 ''constructor'')) = [] \<and>
   flowStateStoresByEnv (heap constructor_twice_world ! 0) ''constructor'' =
     Some (AsyncProvider 4 (Fulfils (FlowStateStore 4))) \<and>
   flowStateStoresByEnvCache (heap constructor_twice_world ! 0) ''constructor'' = None \<and>
   snd (Registry_lookupFlowStateStore constructor_twice_world 0 ''constructor'') =
     ReturnedMember ''constructor'' \<and>
   calls (fst (Registry_lookupFlowStateStore constructor_twice_world 0 ''constructor'')) = []"
  by code_simp

end
